theory Spec2Isabelle
  imports Main "HOL-Library.AList" "HOL-Library.Char_ord" "HOL-Library.List_Lexorder"
    "HOL-Library.Product_Lexorder"
begin

section \<open>Errors\<close>

text \<open>
  The exceptions of \<^verbatim>\<open>graphframe.py\<close>: the two classes it declares
  (\<^verbatim>\<open>InvalidFilter\<close>, \<^verbatim>\<open>EmptyFilter\<close>), the \<^verbatim>\<open>ValueError\<close> it raises with a
  message, the \<^verbatim>\<open>KeyError\<close> of a label-based lookup that finds nothing, and the
  \<^verbatim>\<open>RecursionError\<close> of a recursion deeper than the interpreter's limit.
\<close>

datatype error =
    ValueError string
  | KeyError
  | InvalidFilter
  | EmptyFilter
  | RecursionError

section \<open>The metric table\<close>

text \<open>
  A cell is a number, a text or the missing value. Metric values are exact integers
  here; rounding of floating-point sums is not modelled.
\<close>

datatype cell = Num int | Str string | NaN

text \<open>
  A row key is a node handle and the values of the secondary index levels (rank,
  thread). A row is its key and its cells by column name. \<^verbatim>\<open>reset_index\<close> and
  \<^verbatim>\<open>set_index\<close> move the key between index and columns and leave this
  representation as it is.
\<close>

type_synonym rowkey = "nat \<times> int list"
type_synonym row = "rowkey \<times> (string \<times> cell) list"

record dataframe =
  index_names :: "string list"
  columns :: "string list"
  rows :: "row list"

definition cell_of :: "(string \<times> cell) list \<Rightarrow> string \<Rightarrow> cell" where
  "cell_of r c = (case map_of r c of None \<Rightarrow> NaN | Some v \<Rightarrow> v)"

definition row_node :: "row \<Rightarrow> nat" where
  "row_node r = fst (fst r)"

definition df_nodes :: "dataframe \<Rightarrow> nat list" where
  "df_nodes df = map row_node (rows df)"

definition df_keys :: "dataframe \<Rightarrow> rowkey list" where
  "df_keys df = map fst (rows df)"

text \<open>The cell at a key and a column: the first row with that key.\<close>

definition df_cell :: "dataframe \<Rightarrow> rowkey \<Rightarrow> string \<Rightarrow> cell" where
  "df_cell df k c = (case map_of (rows df) k of None \<Rightarrow> NaN | Some r \<Rightarrow> cell_of r c)"

text \<open>\<^verbatim>\<open>df[out] = df[col]\<close>: a missing source column is a \<^verbatim>\<open>KeyError\<close>.\<close>

definition copy_column :: "dataframe \<Rightarrow> string \<Rightarrow> string \<Rightarrow> error + dataframe" where
  "copy_column df col out =
     (if col \<notin> set (columns df) then Inl KeyError
      else Inr (df\<lparr>columns := (if out \<in> set (columns df) then columns df else columns df @ [out]),
                   rows := map (\<lambda>(k, r). (k, AList.update out (cell_of r col) r)) (rows df)\<rparr>))"

text \<open>\<^verbatim>\<open>np.sum\<close> down a column: missing values are skipped.\<close>

fun cell_num :: "cell \<Rightarrow> int" where
  "cell_num (Num i) = i"
| "cell_num (Str s) = 0"
| "cell_num NaN = 0"

definition np_sum :: "cell list \<Rightarrow> cell" where
  "np_sum cs = Num (sum_list (map cell_num cs))"

text \<open>\<^verbatim>\<open>df.loc[nodes]\<close>: the rows of each listed node, in the order of the list.\<close>

definition loc_rows :: "dataframe \<Rightarrow> nat list \<Rightarrow> row list" where
  "loc_rows df ns = concat (map (\<lambda>n. filter (\<lambda>r. row_node r = n) (rows df)) ns)"

text \<open>\<^verbatim>\<open>df.loc[(nodes, i)]\<close> on a compound index: the rows of the listed nodes whose
  secondary key is \<open>i\<close>.\<close>

definition loc_rows_at :: "dataframe \<Rightarrow> nat list \<Rightarrow> int list \<Rightarrow> row list" where
  "loc_rows_at df ns i = concat (map (\<lambda>n. filter (\<lambda>r. fst r = (n, i)) (rows df)) ns)"

text \<open>\<^verbatim>\<open>function(df.loc[nodes, cols])\<close>: one value per column. A listed node with no row
  and a column that is not in the table are a \<^verbatim>\<open>KeyError\<close>.\<close>

definition loc_apply ::
  "(cell list \<Rightarrow> cell) \<Rightarrow> dataframe \<Rightarrow> nat list \<Rightarrow> string list \<Rightarrow> error + cell list" where
  "loc_apply f df ns cols =
     (if (\<exists>n \<in> set ns. n \<notin> set (df_nodes df)) \<or> (\<exists>c \<in> set cols. c \<notin> set (columns df))
      then Inl KeyError
      else Inr (map (\<lambda>c. f (map (\<lambda>r. cell_of (snd r) c) (loc_rows df ns))) cols))"

definition loc_apply_at ::
  "(cell list \<Rightarrow> cell) \<Rightarrow> dataframe \<Rightarrow> nat list \<Rightarrow> int list \<Rightarrow> string list \<Rightarrow> error + cell list" where
  "loc_apply_at f df ns i cols =
     (if \<exists>c \<in> set cols. c \<notin> set (columns df) then Inl KeyError
      else Inr (map (\<lambda>c. f (map (\<lambda>r. cell_of (snd r) c) (loc_rows_at df ns i))) cols))"

text \<open>Writing values into the cells of a row, one per column, in order.\<close>

fun set_cells :: "(string \<times> cell) list \<Rightarrow> (string \<times> cell) list \<Rightarrow> (string \<times> cell) list" where
  "set_cells r [] = r"
| "set_cells r ((c, v) # cvs) = set_cells (AList.update c v r) cvs"

text \<open>\<^verbatim>\<open>df.loc[node, cols] = vals\<close>: every row of the node takes the values.\<close>

definition loc_assign :: "dataframe \<Rightarrow> nat \<Rightarrow> string list \<Rightarrow> cell list \<Rightarrow> dataframe" where
  "loc_assign df n cols vals =
     df\<lparr>rows := map (\<lambda>r. if row_node r = n then (fst r, set_cells (snd r) (zip cols vals)) else r)
                    (rows df)\<rparr>"

text \<open>\<^verbatim>\<open>df.loc[(node, i), cols] = vals\<close>: the rows of that node and secondary key.\<close>

definition loc_assign_at ::
  "dataframe \<Rightarrow> nat \<Rightarrow> int list \<Rightarrow> string list \<Rightarrow> cell list \<Rightarrow> dataframe" where
  "loc_assign_at df n i cols vals =
     df\<lparr>rows := map (\<lambda>r. if fst r = (n, i) then (fst r, set_cells (snd r) (zip cols vals)) else r)
                    (rows df)\<rparr>"

section \<open>Nodes and graphs\<close>

text \<open>
  Modelled from the spec: the classes \<^verbatim>\<open>Frame\<close>, \<^verbatim>\<open>Node\<close> and \<^verbatim>\<open>Graph\<close>
  (\<^verbatim>\<open>frame.py\<close>, \<^verbatim>\<open>node.py\<close>, \<^verbatim>\<open>graph.py\<close> are not among the source files). A
  frame is its attributes; a node is an object with an opaque handle (its address in
  the heap), a frame, a traversal-order id and its parent and child handles; a graph is
  an object (\<open>gid\<close> stands for its identity, which \<^verbatim>\<open>is\<close> compares) holding the
  ordered roots.
\<close>

type_synonym frame = "(string \<times> string) list"

record node =
  frame :: frame
  nid :: nat
  children :: "nat list"
  parents :: "nat list"

record heap =
  node_at :: "nat \<Rightarrow> node option"
  next_id :: nat

record graph =
  gid :: nat
  roots :: "nat list"

definition kids :: "heap \<Rightarrow> nat \<Rightarrow> nat list" where
  "kids h n = (case node_at h n of None \<Rightarrow> [] | Some nd \<Rightarrow> children nd)"

definition pars :: "heap \<Rightarrow> nat \<Rightarrow> nat list" where
  "pars h n = (case node_at h n of None \<Rightarrow> [] | Some nd \<Rightarrow> parents nd)"

datatype order = Pre | Post

text \<open>
  Modelled from the spec: \<^verbatim>\<open>Node.traverse\<close> and \<^verbatim>\<open>Graph.traverse\<close>, the depth-first
  sequence of the nodes reachable from a node (from the roots), each once, in preorder
  or postorder. The state is the visited list and the sequence produced so far. The
  first argument is the depth of recursion left before Python's recursion limit; at
  depth 0 the traversal raises (\<open>None\<close>).
\<close>

fun node_traverse ::
    "nat \<Rightarrow> heap \<Rightarrow> order \<Rightarrow> nat \<Rightarrow> nat list \<times> nat list \<Rightarrow> (nat list \<times> nat list) option"
  and nodes_traverse ::
    "nat \<Rightarrow> heap \<Rightarrow> order \<Rightarrow> nat list \<Rightarrow> nat list \<times> nat list \<Rightarrow> (nat list \<times> nat list) option"
where
  "node_traverse 0 h ord n st = None"
| "node_traverse (Suc d) h ord n (vis, out) =
     (if n \<in> set vis then Some (vis, out)
      else case nodes_traverse d h ord (kids h n)
                  (n # vis, if ord = Pre then out @ [n] else out) of
             None \<Rightarrow> None
           | Some (vis', out') \<Rightarrow> Some (vis', if ord = Post then out' @ [n] else out'))"
| "nodes_traverse d h ord [] st = Some st"
| "nodes_traverse d h ord (c # cs) st =
     (case node_traverse d h ord c st of
        None \<Rightarrow> None
      | Some st' \<Rightarrow> nodes_traverse d h ord cs st')"

definition traverse_node :: "nat \<Rightarrow> heap \<Rightarrow> order \<Rightarrow> nat \<Rightarrow> error + nat list" where
  "traverse_node lim h ord n =
     (case node_traverse lim h ord n ([], []) of None \<Rightarrow> Inl RecursionError
      | Some (vis, out) \<Rightarrow> Inr out)"

definition traverse :: "nat \<Rightarrow> heap \<Rightarrow> order \<Rightarrow> graph \<Rightarrow> error + nat list" where
  "traverse lim h ord g =
     (case nodes_traverse lim h ord (roots g) ([], []) of None \<Rightarrow> Inl RecursionError
      | Some (vis, out) \<Rightarrow> Inr out)"

text \<open>
  Modelled from the spec: \<^verbatim>\<open>Graph.is_tree\<close>, true iff every non-root node has exactly
  one parent.
\<close>

definition is_tree :: "nat \<Rightarrow> heap \<Rightarrow> graph \<Rightarrow> error + bool" where
  "is_tree lim h g =
     (case traverse lim h Pre g of Inl e \<Rightarrow> Inl e
      | Inr ns \<Rightarrow> Inr (list_all (\<lambda>n. n \<in> set (roots g) \<or> length (pars h n) = 1) ns))"

section \<open>GraphFrame\<close>

record graphframe =
  graph :: graph
  dataframe :: dataframe
  exc_metrics :: "string list"
  inc_metrics :: "string list"

text \<open>\<^verbatim>\<open>GraphFrame.__init__\<close>. The graph and the dataframe are values here, so the two
  checks for \<^verbatim>\<open>None\<close> cannot fail; the check of the index remains.\<close>

definition init_graphframe ::
  "graph \<Rightarrow> dataframe \<Rightarrow> string list \<Rightarrow> string list \<Rightarrow> error + graphframe" where
  "init_graphframe g df exc inc =
     (if ''node'' \<notin> set (index_names df)
      then Inl (ValueError ''DataFrames passed to GraphFrame() must have an index called 'node'.'')
      else Inr \<lparr>graph = g, dataframe = df, exc_metrics = exc, inc_metrics = inc\<rparr>)"

subsection \<open>Sums over subtrees and subgraphs\<close>

text \<open>The loop of \<^verbatim>\<open>_init_sum_columns\<close> over \<^verbatim>\<open>zip(columns, out_columns)\<close>. It writes
  into the dataframe as it goes; the dataframe returned is the one the loop reached.\<close>

fun init_out :: "dataframe \<Rightarrow> (string \<times> string) list \<Rightarrow> error option \<times> dataframe" where
  "init_out df [] = (None, df)"
| "init_out df ((col, out) # ps) =
     (case copy_column df col out of
        Inl e \<Rightarrow> (Some e, df)
      | Inr df' \<Rightarrow> init_out df' ps)"

text \<open>\<^verbatim>\<open>_init_sum_columns\<close>: the result, and \<^verbatim>\<open>self\<close> after the call.\<close>

definition init_sum_columns ::
  "graphframe \<Rightarrow> string list \<Rightarrow> string list option \<Rightarrow> (error + string list) \<times> graphframe" where
  "init_sum_columns self cols out_columns =
     (case out_columns of
        None \<Rightarrow> (Inr cols, self)
      | Some outs \<Rightarrow>
          (case init_out (dataframe self) (zip cols outs) of
             (Some e, df') \<Rightarrow> (Inl e, self\<lparr>dataframe := df'\<rparr>)
           | (None, df') \<Rightarrow>
               if length cols \<noteq> length outs
               then (Inl (ValueError ''columns out_columns must be the same length!''),
                     self\<lparr>dataframe := df'\<rparr>)
               else (Inr outs, self\<lparr>dataframe := df'\<rparr>)))"

text \<open>The loop of \<^verbatim>\<open>subtree_sum\<close> over the postorder sequence.\<close>

fun subtree_loop ::
  "heap \<Rightarrow> (cell list \<Rightarrow> cell) \<Rightarrow> string list \<Rightarrow> nat list \<Rightarrow> dataframe \<Rightarrow> error option \<times> dataframe"
where
  "subtree_loop h f outs [] df = (None, df)"
| "subtree_loop h f outs (n # ns) df =
     (if kids h n = [] then subtree_loop h f outs ns df
      else case loc_apply f df (n # kids h n) outs of
             Inl e \<Rightarrow> (Some e, df)
           | Inr vals \<Rightarrow> subtree_loop h f outs ns (loc_assign df n outs vals))"

text \<open>\<^verbatim>\<open>subtree_sum\<close>: the exception raised, if any, and \<^verbatim>\<open>self\<close> after the call. The
  sequence of the traversal does not depend on the dataframe, so it is taken whole
  before the loop.\<close>

definition subtree_sum ::
  "nat \<Rightarrow> heap \<Rightarrow> graphframe \<Rightarrow> string list \<Rightarrow> string list option \<Rightarrow> (cell list \<Rightarrow> cell)
     \<Rightarrow> error option \<times> graphframe" where
  "subtree_sum lim h self cols out_columns f =
     (case init_sum_columns self cols out_columns of
        (Inl e, self1) \<Rightarrow> (Some e, self1)
      | (Inr outs, self1) \<Rightarrow>
          (case traverse lim h Post (graph self1) of
             Inl e \<Rightarrow> (Some e, self1)
           | Inr ns \<Rightarrow>
               (case subtree_loop h f outs ns (dataframe self1) of
                  (e, df') \<Rightarrow> (e, self1\<lparr>dataframe := df'\<rparr>))))"

text \<open>The secondary keys of a node's rows, each once
  (\<^verbatim>\<open>df.loc[(node), out_columns].index.unique()\<close>).\<close>

definition secondary_keys :: "dataframe \<Rightarrow> nat \<Rightarrow> int list list" where
  "secondary_keys df n = remdups (map (\<lambda>r. snd (fst r)) (filter (\<lambda>r. row_node r = n) (rows df)))"

fun multi_loop ::
  "(cell list \<Rightarrow> cell) \<Rightarrow> string list \<Rightarrow> string list \<Rightarrow> nat \<Rightarrow> nat list \<Rightarrow> int list list
     \<Rightarrow> dataframe \<Rightarrow> error option \<times> dataframe" where
  "multi_loop f cols outs n sub [] df = (None, df)"
| "multi_loop f cols outs n sub (i # is) df =
     (case loc_apply_at f df sub i cols of
        Inl e \<Rightarrow> (Some e, df)
      | Inr vals \<Rightarrow> multi_loop f cols outs n sub is (loc_assign_at df n i outs vals))"

text \<open>The loop of the general algorithm of \<^verbatim>\<open>subgraph_sum\<close> over the preorder
  sequence, with its two branches: a compound index (more than one index level) and a
  plain one.\<close>

fun subgraph_loop ::
  "nat \<Rightarrow> heap \<Rightarrow> (cell list \<Rightarrow> cell) \<Rightarrow> string list \<Rightarrow> string list \<Rightarrow> nat list \<Rightarrow> dataframe
     \<Rightarrow> error option \<times> dataframe" where
  "subgraph_loop lim h f cols outs [] df = (None, df)"
| "subgraph_loop lim h f cols outs (n # ns) df =
     (case traverse_node lim h Pre n of
        Inl e \<Rightarrow> (Some e, df)
      | Inr sub \<Rightarrow>
          if length (index_names df) > 1 then
            (if n \<notin> set (df_nodes df) \<or> (\<exists>c \<in> set outs. c \<notin> set (columns df))
             then (Some KeyError, df)
             else case multi_loop f cols outs n sub (secondary_keys df n) df of
                    (Some e, df') \<Rightarrow> (Some e, df')
                  | (None, df') \<Rightarrow> subgraph_loop lim h f cols outs ns df')
          else
            (case loc_apply f df sub cols of
               Inl e \<Rightarrow> (Some e, df)
             | Inr vals \<Rightarrow> subgraph_loop lim h f cols outs ns (loc_assign df n outs vals)))"

text \<open>The part of \<^verbatim>\<open>subgraph_sum\<close> after the test for a tree.\<close>

definition subgraph_sum_general ::
  "nat \<Rightarrow> heap \<Rightarrow> graphframe \<Rightarrow> string list \<Rightarrow> string list option \<Rightarrow> (cell list \<Rightarrow> cell)
     \<Rightarrow> error option \<times> graphframe" where
  "subgraph_sum_general lim h self cols out_columns f =
     (case init_sum_columns self cols out_columns of
        (Inl e, self1) \<Rightarrow> (Some e, self1)
      | (Inr outs, self1) \<Rightarrow>
          (case traverse lim h Pre (graph self1) of
             Inl e \<Rightarrow> (Some e, self1)
           | Inr ns \<Rightarrow>
               (case subgraph_loop lim h f cols outs ns (dataframe self1) of
                  (e, df') \<Rightarrow> (e, self1\<lparr>dataframe := df'\<rparr>))))"

definition subgraph_sum ::
  "nat \<Rightarrow> heap \<Rightarrow> graphframe \<Rightarrow> string list \<Rightarrow> string list option \<Rightarrow> (cell list \<Rightarrow> cell)
     \<Rightarrow> error option \<times> graphframe" where
  "subgraph_sum lim h self cols out_columns f =
     (case is_tree lim h (graph self) of
        Inl e \<Rightarrow> (Some e, self)
      | Inr True \<Rightarrow> subtree_sum lim h self cols out_columns f
      | Inr False \<Rightarrow> subgraph_sum_general lim h self cols out_columns f)"

text \<open>\<^verbatim>\<open>update_inclusive_columns\<close>.\<close>

definition update_inclusive_columns :: "nat \<Rightarrow> heap \<Rightarrow> graphframe \<Rightarrow> error option \<times> graphframe" where
  "update_inclusive_columns lim h self =
     (let self1 = self\<lparr>inc_metrics := map (\<lambda>s. s @ '' (inc)'') (exc_metrics self)\<rparr>
      in subgraph_sum lim h self1 (exc_metrics self1) (Some (inc_metrics self1)) np_sum)"

subsection \<open>Filter\<close>

text \<open>
  The argument of \<^verbatim>\<open>filter\<close>: a callable on the rows (it sees the key and the cells
  of a row), a query path list, a \<^verbatim>\<open>QueryMatcher\<close>, or anything else. The class
  \<^verbatim>\<open>QueryMatcher\<close> is not among the source files: a query is represented by what
  its \<^verbatim>\<open>apply\<close> returns on a GraphFrame, the list of matched paths.
\<close>

datatype filter_obj =
    Callable "rowkey \<Rightarrow> (string \<times> cell) list \<Rightarrow> bool"
  | QueryList "graphframe \<Rightarrow> nat list list"
  | Matcher "graphframe \<Rightarrow> nat list list"
  | Other

text \<open>The rows \<^verbatim>\<open>filter\<close> keeps, or \<^verbatim>\<open>InvalidFilter\<close>.\<close>

definition filtered_rows :: "graphframe \<Rightarrow> filter_obj \<Rightarrow> error + row list" where
  "filtered_rows self fo =
     (case fo of
        Callable p \<Rightarrow> Inr (filter (\<lambda>r. p (fst r) (snd r)) (rows (dataframe self)))
      | QueryList q \<Rightarrow>
          Inr (filter (\<lambda>r. row_node r \<in> set (concat (q self))) (rows (dataframe self)))
      | Matcher q \<Rightarrow>
          Inr (filter (\<lambda>r. row_node r \<in> set (concat (q self))) (rows (dataframe self)))
      | Other \<Rightarrow> Inl InvalidFilter)"

subsection \<open>Squash\<close>

definition frame_of :: "heap \<Rightarrow> nat \<Rightarrow> frame" where
  "frame_of h n = (case node_at h n of None \<Rightarrow> [] | Some nd \<Rightarrow> frame nd)"

definition nid_of :: "heap \<Rightarrow> nat \<Rightarrow> nat" where
  "nid_of h n = (case node_at h n of None \<Rightarrow> 0 | Some nd \<Rightarrow> nid nd)"

text \<open>
  Modelled from the spec: \<^verbatim>\<open>Node.copy\<close> (a new node with the same frame and no
  edges), \<^verbatim>\<open>Node.add_child\<close> and \<^verbatim>\<open>Node.add_parent\<close> (\<^verbatim>\<open>node.py\<close> is not among
  the source files). A new object takes the next free handle of the heap.
\<close>

definition alloc_node :: "heap \<Rightarrow> node \<Rightarrow> heap" where
  "alloc_node h nd = h\<lparr>node_at := (node_at h)(next_id h \<mapsto> nd), next_id := Suc (next_id h)\<rparr>"

definition add_child :: "heap \<Rightarrow> nat \<Rightarrow> nat \<Rightarrow> heap" where
  "add_child h p n =
     (case node_at h p of None \<Rightarrow> h
      | Some nd \<Rightarrow> h\<lparr>node_at := (node_at h)(p \<mapsto> nd\<lparr>children := children nd @ [n]\<rparr>)\<rparr>)"

definition add_parent :: "heap \<Rightarrow> nat \<Rightarrow> nat \<Rightarrow> heap" where
  "add_parent h n p =
     (case node_at h n of None \<Rightarrow> h
      | Some nd \<Rightarrow> h\<lparr>node_at := (node_at h)(n \<mapsto> nd\<lparr>parents := parents nd @ [p]\<rparr>)\<rparr>)"

text \<open>The first lines of \<^verbatim>\<open>squash\<close>: a copy of every distinct node of the dataframe,
  with the traversal-order id of the old node.\<close>

fun copy_nodes :: "heap \<Rightarrow> nat list \<Rightarrow> heap" where
  "copy_nodes h [] = h"
| "copy_nodes h (n # ns) =
     copy_nodes (alloc_node h \<lparr>frame = frame_of h n, nid = nid_of h n, children = [], parents = []\<rparr>) ns"

definition old_to_new :: "heap \<Rightarrow> nat list \<Rightarrow> nat \<Rightarrow> nat option" where
  "old_to_new h retained = map_of (zip retained [next_id h ..< next_id h + length retained])"

text \<open>A Python set as the list of its elements, each once.\<close>

definition set_union :: "nat list \<Rightarrow> nat list \<Rightarrow> nat list" where
  "set_union xs ys = xs @ filter (\<lambda>y. y \<notin> set xs) (remdups ys)"

record rewire_state =
  rw_heap :: heap
  connections :: "nat \<Rightarrow> nat list"
  new_roots :: "nat list"
  visited :: "nat list"

text \<open>The first loop of \<^verbatim>\<open>rewire\<close>: every node of \<^verbatim>\<open>connections[node]\<close> is linked
  under the new parent, or becomes a root when there is none.\<close>

fun connect :: "nat option \<Rightarrow> nat list \<Rightarrow> heap \<times> nat list \<Rightarrow> heap \<times> nat list" where
  "connect new_parent [] (h, nr) = (h, nr)"
| "connect new_parent (n # ns) (h, nr) =
     connect new_parent ns
       (case new_parent of
          Some p \<Rightarrow> if n \<notin> set (kids h p) then (add_parent (add_child h p n) n p, nr) else (h, nr)
        | None \<Rightarrow> if n \<notin> set nr then (h, nr @ [n]) else (h, nr))"

text \<open>
  \<^verbatim>\<open>rewire\<close>, the recursive closure of \<^verbatim>\<open>squash\<close>, with the state it shares
  (\<^verbatim>\<open>connections\<close>, \<^verbatim>\<open>new_roots\<close>, \<^verbatim>\<open>visited\<close> and the nodes it links) passed
  along. It returns the set of new nodes to connect to the caller's parent. The first
  argument is the depth of recursion left; at depth 0 it raises (\<open>None\<close>).
\<close>

fun rewire ::
    "nat \<Rightarrow> (nat \<Rightarrow> nat option) \<Rightarrow> nat \<Rightarrow> nat option \<Rightarrow> rewire_state
       \<Rightarrow> (nat list \<times> rewire_state) option"
  and rewire_children ::
    "nat \<Rightarrow> (nat \<Rightarrow> nat option) \<Rightarrow> nat list \<Rightarrow> nat option \<Rightarrow> rewire_state
       \<Rightarrow> (nat list \<times> rewire_state) option"
where
  "rewire 0 o2n nd new_parent s = None"
| "rewire (Suc d) o2n nd new_parent s =
     (let (h1, nr1) = connect new_parent (connections s nd) (rw_heap s, new_roots s);
          s1 = s\<lparr>rw_heap := h1, new_roots := nr1\<rparr>;
          new_node = o2n nd
      in case (if nd \<notin> set (visited s1)
               then rewire_children d o2n (kids h1 nd)
                      (case new_node of Some m \<Rightarrow> Some m | None \<Rightarrow> new_parent)
                      (s1\<lparr>visited := nd # visited s1\<rparr>)
               else Some ([], s1)) of
           None \<Rightarrow> None
         | Some (transitive, s2) \<Rightarrow>
             (case new_node of
                Some m \<Rightarrow> Some ([m], s2)
              | None \<Rightarrow>
                  (let c = set_union (connections s2 nd) transitive
                   in Some (c, s2\<lparr>connections := (connections s2)(nd := c)\<rparr>))))"
| "rewire_children d o2n [] new_parent s = Some ([], s)"
| "rewire_children d o2n (c # cs) new_parent s =
     (case rewire d o2n c new_parent s of
        None \<Rightarrow> None
      | Some (t1, s1) \<Rightarrow>
          (case rewire_children d o2n cs new_parent s1 of
             None \<Rightarrow> None
           | Some (t2, s2) \<Rightarrow> Some (set_union t1 t2, s2)))"

text \<open>
  Modelled from the spec: \<^verbatim>\<open>Graph.enumerate_traverse\<close>, which numbers the nodes in
  traversal order (\<^verbatim>\<open>graph.py\<close> is not among the source files).
\<close>

definition set_nid :: "heap \<Rightarrow> nat \<Rightarrow> nat \<Rightarrow> heap" where
  "set_nid h n i =
     (case node_at h n of None \<Rightarrow> h
      | Some nd \<Rightarrow> h\<lparr>node_at := (node_at h)(n \<mapsto> nd\<lparr>nid := i\<rparr>)\<rparr>)"

definition enumerate_traverse :: "nat \<Rightarrow> heap \<Rightarrow> graph \<Rightarrow> error + heap" where
  "enumerate_traverse lim h g =
     (case traverse lim h Pre g of
        Inl e \<Rightarrow> Inl e
      | Inr ns \<Rightarrow> Inr (fold (\<lambda>(i, n) h'. set_nid h' n i) (enumerate 0 ns) h))"

text \<open>Re-keying the rows by a mapping of nodes
  (\<^verbatim>\<open>df["node"] = df["node"].apply(...)\<close>).\<close>

definition rekey :: "(nat \<Rightarrow> nat) \<Rightarrow> dataframe \<Rightarrow> dataframe" where
  "rekey m df = df\<lparr>rows := map (\<lambda>r. ((m (row_node r), snd (fst r)), snd r)) (rows df)\<rparr>"

text \<open>
  \<^verbatim>\<open>df.groupby(index_names).agg(agg_dict)\<close> followed by \<^verbatim>\<open>sort_index\<close>: one row per
  key, in the order of the keys (nodes by handle); a metric column holds the sum over
  the rows of the key, any other column the value of the first of them.
\<close>

definition groupby_agg :: "string list \<Rightarrow> dataframe \<Rightarrow> dataframe" where
  "groupby_agg metrics df =
     df\<lparr>rows := map (\<lambda>k. (k, map (\<lambda>c. (c, let grp = filter (\<lambda>r. fst r = k) (rows df)
                                          in if c \<in> set metrics
                                             then np_sum (map (\<lambda>r. cell_of (snd r) c) grp)
                                             else (case grp of [] \<Rightarrow> NaN
                                                   | r # _ \<Rightarrow> cell_of (snd r) c)))
                                (columns df)))
                    (sort (remdups (df_keys df)))\<rparr>"

text \<open>The state \<^verbatim>\<open>rewire\<close> starts from: the copies are in the heap,
  \<^verbatim>\<open>connections\<close> maps every old node of the dataframe to the set of its copy, there
  are no new roots and nothing is visited.\<close>

definition squash_start :: "heap \<Rightarrow> graphframe \<Rightarrow> rewire_state" where
  "squash_start h self =
     \<lparr>rw_heap = copy_nodes h (remdups (df_nodes (dataframe self))),
      connections = (\<lambda>n. case old_to_new h (remdups (df_nodes (dataframe self))) n of
                            None \<Rightarrow> [] | Some m \<Rightarrow> [m]),
      new_roots = [], visited = []\<rparr>"

text \<open>
  \<^verbatim>\<open>squash\<close>. \<^verbatim>\<open>Graph.normalize\<close> is not among the source files: it is the
  parameter \<open>nz\<close>, which takes the heap and the graph and returns the merges, the heap
  and the graph after merging. The result is the new GraphFrame, or the exception, and
  the heap after the call. The caller's dataframe has its index reset at the start and
  set again before the grouping, which leaves it as it was.
\<close>

definition squash ::
  "(nat \<Rightarrow> heap \<Rightarrow> graph \<Rightarrow> (error + (nat \<Rightarrow> nat option)) \<times> heap \<times> graph) \<Rightarrow> nat \<Rightarrow> heap
     \<Rightarrow> graphframe \<Rightarrow> (error + graphframe) \<times> heap" where
  "squash nz lim h self =
     (let retained = remdups (df_nodes (dataframe self));
          o2n = old_to_new h retained;
          h1 = copy_nodes h retained;
          s0 = squash_start h self
      in case rewire_children lim o2n (roots (graph self)) None s0 of
           None \<Rightarrow> (Inl RecursionError, h1)
         | Some (t, s) \<Rightarrow>
             (let h2 = rw_heap s;
                  g = \<lparr>gid = next_id h2, roots = new_roots s\<rparr>;
                  h3 = h2\<lparr>next_id := Suc (next_id h2)\<rparr>
              in case enumerate_traverse lim h3 g of
                   Inl e \<Rightarrow> (Inl e, h3)
                 | Inr h4 \<Rightarrow>
                     (let df = rekey (\<lambda>n. case o2n n of None \<Rightarrow> n | Some m \<Rightarrow> m) (dataframe self)
                      in case nz lim h4 g of
                           (Inl e, h5, g') \<Rightarrow> (Inl e, h5)
                         | (Inr merges, h5, g') \<Rightarrow>
                             (let df' = rekey (\<lambda>n. case merges n of None \<Rightarrow> n | Some m \<Rightarrow> m) df;
                                  agg_df = groupby_agg (exc_metrics self @ inc_metrics self) df'
                              in case init_graphframe g' agg_df (exc_metrics self) (inc_metrics self) of
                                   Inl e \<Rightarrow> (Inl e, h5)
                                 | Inr new_gf \<Rightarrow>
                                     (case update_inclusive_columns lim h5 new_gf of
                                        (Some e, gf') \<Rightarrow> (Inl e, h5)
                                      | (None, gf') \<Rightarrow> (Inr gf', h5))))))"

text \<open>
  \<^verbatim>\<open>filter\<close>. The result, \<^verbatim>\<open>self\<close> after the call and the heap after the call.
\<close>

definition filter_gf ::
  "(nat \<Rightarrow> heap \<Rightarrow> graph \<Rightarrow> (error + (nat \<Rightarrow> nat option)) \<times> heap \<times> graph) \<Rightarrow> nat \<Rightarrow> heap
     \<Rightarrow> graphframe \<Rightarrow> filter_obj \<Rightarrow> bool \<Rightarrow> (error + graphframe) \<times> graphframe \<times> heap" where
  "filter_gf nz lim h self fo sq =
     (case filtered_rows self fo of
        Inl e \<Rightarrow> (Inl e, self, h)
      | Inr frows \<Rightarrow>
          if length frows = 0 then (Inl EmptyFilter, self, h)
          else (case init_graphframe (graph self) ((dataframe self)\<lparr>rows := frows\<rparr>) [] [] of
                  Inl e \<Rightarrow> (Inl e, self, h)
                | Inr fgf \<Rightarrow>
                    (let filtered_gf = fgf\<lparr>exc_metrics := exc_metrics self,
                                            inc_metrics := inc_metrics self\<rparr>
                     in if sq then (case squash nz lim h filtered_gf of (r, h') \<Rightarrow> (r, self, h'))
                        else (Inr filtered_gf, self, h))))"

subsection \<open>Unify and arithmetic\<close>

definition all_metrics :: "graphframe \<Rightarrow> graphframe \<Rightarrow> string list" where
  "all_metrics self other =
     remdups (exc_metrics self @ inc_metrics self @ exc_metrics other @ inc_metrics other)"

text \<open>
  \<^verbatim>\<open>df.join(new_df)\<close> where \<^verbatim>\<open>new_df\<close> has the index of \<^verbatim>\<open>df\<close> and the one column
  \<^verbatim>\<open>_missing_node\<close>, empty: the join refuses a column the table already has. The
  keys of a table are distinct; the rows a join would repeat for a repeated key are
  not modelled.
\<close>

definition joinf :: "row \<Rightarrow> row" where
  "joinf r = (fst r, AList.update ''_missing_node'' (Str []) (snd r))"

definition join_missing :: "string list \<Rightarrow> row list \<Rightarrow> error + string list \<times> row list" where
  "join_missing cols rs =
     (if ''_missing_node'' \<in> set cols
      then Inl (ValueError ''columns overlap but no suffix specified'')
      else Inr (cols @ [''_missing_node''], map joinf rs))"

text \<open>\<^verbatim>\<open>df.at[i, "_missing_node"] = v\<close> for every key \<open>i\<close> of a list.\<close>

definition mark_rows :: "rowkey list \<Rightarrow> string \<Rightarrow> row list \<Rightarrow> row list" where
  "mark_rows ks v rs =
     map (\<lambda>r. if fst r \<in> set ks then (fst r, AList.update ''_missing_node'' (Str v) (snd r)) else r) rs"

text \<open>The columns of \<^verbatim>\<open>df.append(other, sort=True)\<close>: sorted, unless the two tables
  have the same columns already.\<close>

definition append_columns :: "string list \<Rightarrow> string list \<Rightarrow> string list" where
  "append_columns cs ds = (if cs = ds then cs else sort (remdups (cs @ ds)))"

text \<open>\<^verbatim>\<open>_insert_missing_rows\<close>: the exception raised, if any, and \<^verbatim>\<open>self\<close> after the
  call. Nothing is written to \<^verbatim>\<open>other\<close>.\<close>

definition insert_missing_rows :: "graphframe \<Rightarrow> graphframe \<Rightarrow> error option \<times> graphframe" where
  "insert_missing_rows self other =
     (let am = all_metrics self other;
          sdf = dataframe self;
          odf = dataframe other;
          other_not_in_self = filter (\<lambda>r. fst r \<notin> set (df_keys sdf)) (rows odf);
          self_not_in_other = filter (\<lambda>r. fst r \<notin> set (df_keys odf)) (rows sdf)
      in case (if self_not_in_other \<noteq> [] then join_missing (columns sdf) (rows sdf)
               else Inr (columns sdf, rows sdf)) of
           Inl e \<Rightarrow> (Some e, self)
         | Inr (sc1, sr1) \<Rightarrow>
             (let self1 = self\<lparr>dataframe := sdf\<lparr>columns := sc1, rows := sr1\<rparr>\<rparr>
              in case (if other_not_in_self \<noteq> [] then join_missing (columns odf) other_not_in_self
                       else Inr (columns odf, other_not_in_self)) of
                   Inl e \<Rightarrow> (Some e, self1)
                 | Inr (oc1, or1) \<Rightarrow>
                     (case (if other_not_in_self \<noteq> [] \<and> self_not_in_other = []
                            then join_missing sc1 sr1 else Inr (sc1, sr1)) of
                        Inl e \<Rightarrow> (Some e, self1)
                      | Inr (sc2, sr2) \<Rightarrow>
                          (let sr3 = mark_rows (map fst self_not_in_other) ''L'' sr2;
                               or2 = map (\<lambda>r. (fst r, set_cells (snd r)
                                          (map (\<lambda>j. (j, Num 0)) am @ [(''_missing_node'', Str ''R'')])))
                                       or1;
                               oc2 = (if or1 = [] then oc1
                                      else oc1 @ filter (\<lambda>j. j \<notin> set oc1) am)
                           in (None, self\<lparr>dataframe :=
                                 sdf\<lparr>columns := append_columns sc2 oc2, rows := sr3 @ or2\<rparr>\<rparr>)))))"

text \<open>
  \<^verbatim>\<open>unify\<close>. \<^verbatim>\<open>Graph.union\<close> is not among the source files: it is the parameter
  \<open>un\<close>, which takes the heap and the two graphs and returns the union graph and the
  node map (old node to surviving node), and the heap after. The result is the
  exception raised, if any, \<^verbatim>\<open>self\<close> and \<^verbatim>\<open>other\<close> after the call, and the heap.
\<close>

definition unify ::
  "(heap \<Rightarrow> graph \<Rightarrow> graph \<Rightarrow> (error + graph \<times> (nat \<Rightarrow> nat option)) \<times> heap) \<Rightarrow> heap
     \<Rightarrow> graphframe \<Rightarrow> graphframe \<Rightarrow> error option \<times> graphframe \<times> graphframe \<times> heap" where
  "unify un h self other =
     (if gid (graph self) = gid (graph other) then (None, self, other, h)
      else case un h (graph self) (graph other) of
             (Inl e, h') \<Rightarrow> (Some e, self, other, h')
           | (Inr (union_graph, node_map), h') \<Rightarrow>
               if \<exists>n \<in> set (df_nodes (dataframe self)). node_map n = None
               then (Some KeyError, self, other, h')
               else (let self1 = self\<lparr>dataframe :=
                           rekey (\<lambda>n. case node_map n of None \<Rightarrow> n | Some m \<Rightarrow> m) (dataframe self)\<rparr>
                     in if \<exists>n \<in> set (df_nodes (dataframe other)). node_map n = None
                        then (Some KeyError, self1, other, h')
                        else (let other1 = other\<lparr>dataframe :=
                                    rekey (\<lambda>n. case node_map n of None \<Rightarrow> n | Some m \<Rightarrow> m)
                                      (dataframe other)\<rparr>
                              in case insert_missing_rows self1 other1 of
                                   (Some e, self2) \<Rightarrow> (Some e, self2, other1, h')
                                 | (None, self2) \<Rightarrow>
                                     (None, self2\<lparr>graph := union_graph\<rparr>,
                                      other1\<lparr>graph := union_graph\<rparr>, h'))))"

text \<open>\<^verbatim>\<open>DataFrame.add\<close> on two aligned cells: a missing operand gives a missing
  result.\<close>

fun cell_add :: "cell \<Rightarrow> cell \<Rightarrow> cell" where
  "cell_add (Num a) (Num b) = Num (a + b)"
| "cell_add x y = NaN"

text \<open>
  \<^verbatim>\<open>_operator\<close>: \<^verbatim>\<open>self.dataframe.update(op(other.dataframe[all_metrics]))\<close>. The
  operator is a method of \<^verbatim>\<open>self\<close>'s dataframe: its result at a key and a column is
  missing unless both tables have the key and the column is among the metrics taken
  from \<^verbatim>\<open>other\<close>; \<^verbatim>\<open>update\<close> writes the values that are not missing into the cells
  \<^verbatim>\<open>self\<close> already has.
\<close>

definition update_cells ::
  "string list \<Rightarrow> (string \<Rightarrow> cell) \<Rightarrow> (string \<times> cell) list \<Rightarrow> (string \<times> cell) list" where
  "update_cells cols g cells =
     fold (\<lambda>c cs. case g c of NaN \<Rightarrow> cs | v \<Rightarrow> AList.update c v cs) cols cells"

definition operator ::
  "graphframe \<Rightarrow> graphframe \<Rightarrow> (cell \<Rightarrow> cell \<Rightarrow> cell) \<Rightarrow> error + graphframe" where
  "operator self other op =
     (let am = all_metrics self other;
          sdf = dataframe self;
          odf = dataframe other
      in if \<exists>m \<in> set am. m \<notin> set (columns odf) then Inl KeyError
         else Inr (self\<lparr>dataframe := sdf\<lparr>rows :=
                map (\<lambda>r. (fst r,
                       update_cells (columns sdf)
                         (\<lambda>c. if c \<in> set am \<and> fst r \<in> set (df_keys odf)
                              then op (cell_of (snd r) c) (df_cell odf (fst r) c) else NaN)
                         (snd r)))
                    (rows sdf)\<rparr>\<rparr>))"

text \<open>\<^verbatim>\<open>copy\<close>: the dataframe is copied, the graph is shared.\<close>

definition copy_gf :: "graphframe \<Rightarrow> error + graphframe" where
  "copy_gf self = init_graphframe (graph self) (dataframe self) (exc_metrics self) (inc_metrics self)"

text \<open>\<^verbatim>\<open>add\<close>: the new GraphFrame, or the exception, and the heap after the call.\<close>

definition add_gf ::
  "(heap \<Rightarrow> graph \<Rightarrow> graph \<Rightarrow> (error + graph \<times> (nat \<Rightarrow> nat option)) \<times> heap) \<Rightarrow> heap
     \<Rightarrow> graphframe \<Rightarrow> graphframe \<Rightarrow> (error + graphframe) \<times> heap" where
  "add_gf un h self other =
     (case copy_gf self of
        Inl e \<Rightarrow> (Inl e, h)
      | Inr self_copy \<Rightarrow>
          (case copy_gf other of
             Inl e \<Rightarrow> (Inl e, h)
           | Inr other_copy \<Rightarrow>
               (case unify un h self_copy other_copy of
                  (Some e, s', o', h') \<Rightarrow> (Inl e, h')
                | (None, s', o', h') \<Rightarrow> (operator s' o' cell_add, h'))))"

section \<open>The graph operations behind the parameters\<close>

text \<open>A list with each element once, the first occurrence kept.\<close>

definition dedup :: "'a list \<Rightarrow> 'a list" where
  "dedup xs = rev (remdups (rev xs))"

text \<open>
  Modelled from the spec: \<^verbatim>\<open>Graph.normalize\<close> (\<^verbatim>\<open>graph.py\<close> is not among the source
  files), which merges sibling nodes with identical frames under the same parent and
  returns the mapping from the nodes merged away to the nodes they were merged into.
  Among siblings with the same frame the first one survives; it takes the children of
  the others.
\<close>

definition same_frame_rep :: "heap \<Rightarrow> nat list \<Rightarrow> nat \<Rightarrow> nat" where
  "same_frame_rep h sibs n =
     (case filter (\<lambda>m. frame_of h m = frame_of h n) sibs of [] \<Rightarrow> n | r # _ \<Rightarrow> r)"

definition find_merges :: "heap \<Rightarrow> nat list \<Rightarrow> (nat \<Rightarrow> nat option) \<Rightarrow> (nat \<Rightarrow> nat option)" where
  "find_merges h sibs m =
     fold (\<lambda>n m'. let r = same_frame_rep h sibs n in if r = n then m' else m'(n \<mapsto> r)) sibs m"

definition apply_merges :: "(nat \<Rightarrow> nat option) \<Rightarrow> nat list \<Rightarrow> nat list" where
  "apply_merges m xs = dedup (map (\<lambda>n. case m n of None \<Rightarrow> n | Some r \<Rightarrow> r) xs)"

definition set_edges :: "heap \<Rightarrow> nat \<Rightarrow> nat list \<Rightarrow> nat list \<Rightarrow> heap" where
  "set_edges h n cs ps =
     (case node_at h n of None \<Rightarrow> h
      | Some nd \<Rightarrow> h\<lparr>node_at := (node_at h)(n \<mapsto> nd\<lparr>children := cs, parents := ps\<rparr>)\<rparr>)"

definition normalize ::
  "nat \<Rightarrow> heap \<Rightarrow> graph \<Rightarrow> (error + (nat \<Rightarrow> nat option)) \<times> heap \<times> graph" where
  "normalize lim h g =
     (case traverse lim h Pre g of
        Inl e \<Rightarrow> (Inl e, h, g)
      | Inr ns \<Rightarrow>
          (let m = fold (\<lambda>n m'. find_merges h (kids h n) m') ns (find_merges h (roots g) Map.empty);
               h' = fold (\<lambda>n h''. set_edges h'' n
                            (apply_merges m
                               (concat (map (kids h) (n # filter (\<lambda>k. m k = Some n) ns))))
                            (apply_merges m (pars h n)))
                      ns h
           in (Inr m, h', g\<lparr>roots := apply_merges m (roots g)\<rparr>)))"

text \<open>
  Modelled from the spec: \<^verbatim>\<open>Graph.union\<close> (\<^verbatim>\<open>graph.py\<close> is not among the source
  files), the synchronized traversal of two graphs from their roots that matches nodes
  by frame along matching call paths. At one level, the siblings of both sides with the
  same frame become one new node; the node map sends each of them to it. The first
  argument is the depth of recursion left.
\<close>

definition set_children :: "heap \<Rightarrow> nat \<Rightarrow> nat list \<Rightarrow> heap" where
  "set_children h n cs =
     (case node_at h n of None \<Rightarrow> h
      | Some nd \<Rightarrow> h\<lparr>node_at := (node_at h)(n \<mapsto> nd\<lparr>children := cs\<rparr>)\<rparr>)"

fun union_level ::
    "nat \<Rightarrow> nat list \<Rightarrow> nat list \<Rightarrow> nat option \<Rightarrow> heap \<times> (nat \<Rightarrow> nat option)
       \<Rightarrow> (nat list \<times> heap \<times> (nat \<Rightarrow> nat option)) option"
  and union_frames ::
    "nat \<Rightarrow> frame list \<Rightarrow> nat list \<Rightarrow> nat list \<Rightarrow> nat option \<Rightarrow> heap \<times> (nat \<Rightarrow> nat option)
       \<Rightarrow> (nat list \<times> heap \<times> (nat \<Rightarrow> nat option)) option"
where
  "union_level 0 as bs parent st = None"
| "union_level (Suc d) as bs parent (h, nm) =
     union_frames d (dedup (map (frame_of h) (as @ bs))) as bs parent (h, nm)"
| "union_frames d [] as bs parent st = Some ([], st)"
| "union_frames d (f # fs) as bs parent (h, nm) =
     (let ma = filter (\<lambda>a. frame_of h a = f) as;
          mb = filter (\<lambda>b. frame_of h b = f) bs;
          nn = next_id h;
          h1 = alloc_node h \<lparr>frame = f, nid = 0, children = [],
                 parents = (case parent of None \<Rightarrow> [] | Some p \<Rightarrow> [p])\<rparr>;
          nm1 = fold (\<lambda>a m. m(a \<mapsto> nn)) (ma @ mb) nm
      in case union_level d (concat (map (kids h) ma)) (concat (map (kids h) mb)) (Some nn)
                (h1, nm1) of
           None \<Rightarrow> None
         | Some (cs, h2, nm2) \<Rightarrow>
             (case union_frames d fs as bs parent (set_children h2 nn cs, nm2) of
                None \<Rightarrow> None
              | Some (ns, st') \<Rightarrow> Some (nn # ns, st')))"

definition graph_union ::
  "nat \<Rightarrow> heap \<Rightarrow> graph \<Rightarrow> graph \<Rightarrow> (error + graph \<times> (nat \<Rightarrow> nat option)) \<times> heap" where
  "graph_union lim h ga gb =
     (case union_level lim (roots ga) (roots gb) None (h, Map.empty) of
        None \<Rightarrow> (Inl RecursionError, h)
      | Some (rs, h', nm) \<Rightarrow>
          (Inr (\<lparr>gid = next_id h', roots = rs\<rparr>, nm), h'\<lparr>next_id := Suc (next_id h')\<rparr>))"

section \<open>Reachability\<close>

text \<open>The edges of the graph in a heap, and the nodes reachable from a list of
  roots along them.\<close>

definition edges :: "heap \<Rightarrow> (nat \<times> nat) set" where
  "edges h = {(a, b). b \<in> set (kids h a)}"

definition reach :: "heap \<Rightarrow> nat list \<Rightarrow> nat set" where
  "reach h rs = (edges h)\<^sup>* `` set rs"

text \<open>A heap and a graph are closed when every object lies below the next free
  handle, and so do the roots and the children of every node.\<close>

definition closed_heap :: "heap \<Rightarrow> graph \<Rightarrow> bool" where
  "closed_heap h g \<longleftrightarrow>
     (\<forall>a. node_at h a \<noteq> None \<longrightarrow> a < next_id h)
     \<and> (\<forall>r \<in> set (roots g). r < next_id h)
     \<and> (\<forall>a. \<forall>b \<in> set (kids h a). b < next_id h)"

text \<open>The contract of \<^verbatim>\<open>Graph.normalize\<close> that \<^verbatim>\<open>squash\<close> relies on: on a graph
  whose reachable handles all have their node object, the nodes reachable after the
  merges are the images, under the merges, of the nodes reachable before.\<close>

definition merges_reach ::
  "(nat \<Rightarrow> heap \<Rightarrow> graph \<Rightarrow> (error + (nat \<Rightarrow> nat option)) \<times> heap \<times> graph) \<Rightarrow> bool" where
  "merges_reach nz \<longleftrightarrow>
     (\<forall>l h g m h' g'. nz l h g = (Inr m, h', g') \<longrightarrow>
        (\<forall>n \<in> reach h (roots g). node_at h n \<noteq> None) \<longrightarrow>
        reach h' (roots g') = (\<lambda>n. case m n of None \<Rightarrow> n | Some k \<Rightarrow> k) ` reach h (roots g))"

text \<open>A state of \<^verbatim>\<open>rewire\<close> in which no node has a connection and there is no new
  root.\<close>

definition nothing_linked :: "rewire_state \<Rightarrow> bool" where
  "nothing_linked s \<longleftrightarrow> (\<forall>n. connections s n = []) \<and> new_roots s = []"

text \<open>
  The invariant of the state of \<^verbatim>\<open>rewire\<close>, for the heap \<open>h\<close> that \<^verbatim>\<open>squash\<close>
  started from and the map \<open>o2n\<close> from old nodes to their copies: the old nodes are
  untouched; the copies exist, above the old handles; the children of the copies, the
  new roots and all connections are copies; the connection of a retained node is its
  copy; the copy of every visited retained node is reachable from the new roots.
\<close>

definition rw_inv :: "heap \<Rightarrow> (nat \<Rightarrow> nat option) \<Rightarrow> rewire_state \<Rightarrow> bool" where
  "rw_inv h o2n s \<longleftrightarrow>
     (\<forall>a < next_id h. node_at (rw_heap s) a = node_at h a)
   \<and> (\<forall>m \<in> ran o2n. next_id h \<le> m \<and> node_at (rw_heap s) m \<noteq> None)
   \<and> (\<forall>a. next_id h \<le> a \<longrightarrow> set (kids (rw_heap s) a) \<subseteq> ran o2n)
   \<and> set (new_roots s) \<subseteq> ran o2n
   \<and> (\<forall>n. set (connections s n) \<subseteq> ran o2n)
   \<and> (\<forall>n m. o2n n = Some m \<longrightarrow> connections s n = [m])
   \<and> (\<forall>v \<in> set (visited s). \<forall>m. o2n v = Some m \<longrightarrow> m \<in> reach (rw_heap s) (new_roots s))"

text \<open>What a call of \<^verbatim>\<open>rewire\<close> may change: edges, roots and visited nodes are only
  added, and every node visited during the call has all its children visited at the
  end.\<close>

definition rw_grows :: "heap \<Rightarrow> rewire_state \<Rightarrow> rewire_state \<Rightarrow> bool" where
  "rw_grows h s s' \<longleftrightarrow>
     (\<forall>a. set (kids (rw_heap s) a) \<subseteq> set (kids (rw_heap s') a))
   \<and> set (new_roots s) \<subseteq> set (new_roots s')
   \<and> set (visited s) \<subseteq> set (visited s')
   \<and> (\<forall>v \<in> set (visited s') - set (visited s). set (kids h v) \<subseteq> set (visited s'))"

text \<open>The new parent passed to \<^verbatim>\<open>rewire\<close>, if any, is a copy that is reachable from the
  new roots.\<close>

definition parent_ok :: "(nat \<Rightarrow> nat option) \<Rightarrow> nat option \<Rightarrow> rewire_state \<Rightarrow> bool" where
  "parent_ok o2n np s \<longleftrightarrow>
     (\<forall>p. np = Some p \<longrightarrow> p \<in> ran o2n \<and> p \<in> reach (rw_heap s) (new_roots s))"

text \<open>What a call of the traversal may change, for a set \<open>S\<close> of nodes closed under
  children: the sequence holds the visited nodes, nodes are only added to the visited
  ones, all from \<open>S\<close>, and every node visited during the call has all its children
  visited at the end.\<close>

definition trav_ok :: "heap \<Rightarrow> nat set \<Rightarrow> nat list \<times> nat list \<Rightarrow> nat list \<times> nat list \<Rightarrow> bool" where
  "trav_ok h S st st' \<longleftrightarrow>
     (set (snd st) = set (fst st) \<longrightarrow> set (snd st') = set (fst st'))
   \<and> set (fst st) \<subseteq> set (fst st')
   \<and> (\<forall>v \<in> set (fst st') - set (fst st). set (kids h v) \<subseteq> set (fst st'))
   \<and> set (fst st') \<subseteq> set (fst st) \<union> S"

text \<open>Merges that stay within a set of nodes.\<close>

definition merges_in :: "nat set \<Rightarrow> (nat \<Rightarrow> nat option) \<Rightarrow> bool" where
  "merges_in R m \<longleftrightarrow> (\<forall>k r. m k = Some r \<longrightarrow> k \<in> R \<and> r \<in> R)"

section \<open>Example frames\<close>

text \<open>The chain root, child, grandchild, leaf with the exclusive values 2, 3, 4, 5.\<close>

definition chain_heap :: heap where
  "chain_heap = \<lparr>node_at = map_of
      [(0, \<lparr>frame = [(''name'', ''root'')], nid = 0, children = [1], parents = []\<rparr>),
       (1, \<lparr>frame = [(''name'', ''child'')], nid = 1, children = [2], parents = [0]\<rparr>),
       (2, \<lparr>frame = [(''name'', ''grandchild'')], nid = 2, children = [3], parents = [1]\<rparr>),
       (3, \<lparr>frame = [(''name'', ''leaf'')], nid = 3, children = [], parents = [2]\<rparr>)],
    next_id = 5\<rparr>"

definition chain_gf :: graphframe where
  "chain_gf = \<lparr>graph = \<lparr>gid = 4, roots = [0]\<rparr>,
     dataframe = \<lparr>index_names = [''node''], columns = [''time''],
        rows = [((0, []), [(''time'', Num 2)]), ((1, []), [(''time'', Num 3)]),
                ((2, []), [(''time'', Num 4)]), ((3, []), [(''time'', Num 5)])]\<rparr>,
     exc_metrics = [''time''], inc_metrics = []\<rparr>"

text \<open>The chain with no row left in the table.\<close>

definition empty_gf :: graphframe where
  "empty_gf = chain_gf\<lparr>dataframe := (dataframe chain_gf)\<lparr>rows := []\<rparr>\<rparr>"

text \<open>A root with one child, and a table with the compound index (node, rank): two
  ranks for each node.\<close>

definition ranks_heap :: heap where
  "ranks_heap = \<lparr>node_at = map_of
      [(0, \<lparr>frame = [(''name'', ''root'')], nid = 0, children = [1], parents = []\<rparr>),
       (1, \<lparr>frame = [(''name'', ''child'')], nid = 1, children = [], parents = [0]\<rparr>)],
    next_id = 3\<rparr>"

definition ranks_gf :: graphframe where
  "ranks_gf = \<lparr>graph = \<lparr>gid = 2, roots = [0]\<rparr>,
     dataframe = \<lparr>index_names = [''node'', ''rank''], columns = [''time''],
        rows = [((0, [0]), [(''time'', Num 1)]), ((0, [1]), [(''time'', Num 10)]),
                ((1, [0]), [(''time'', Num 100)]), ((1, [1]), [(''time'', Num 1000)])]\<rparr>,
     exc_metrics = [''time''], inc_metrics = []\<rparr>"

text \<open>Two frames on graphs of their own: A has the nodes y (a root) and x, B has the
  nodes y (a root) and z.\<close>

definition ab_heap :: heap where
  "ab_heap = \<lparr>node_at = map_of
      [(0, \<lparr>frame = [(''name'', ''y'')], nid = 0, children = [1], parents = []\<rparr>),
       (1, \<lparr>frame = [(''name'', ''x'')], nid = 1, children = [], parents = [0]\<rparr>),
       (2, \<lparr>frame = [(''name'', ''y'')], nid = 0, children = [3], parents = []\<rparr>),
       (3, \<lparr>frame = [(''name'', ''z'')], nid = 1, children = [], parents = [2]\<rparr>)],
    next_id = 6\<rparr>"

definition a_gf :: graphframe where
  "a_gf = \<lparr>graph = \<lparr>gid = 4, roots = [0]\<rparr>,
     dataframe = \<lparr>index_names = [''node''], columns = [''time''],
        rows = [((1, []), [(''time'', Num 20)]), ((0, []), [(''time'', Num 7)])]\<rparr>,
     exc_metrics = [''time''], inc_metrics = []\<rparr>"

definition b_gf :: graphframe where
  "b_gf = \<lparr>graph = \<lparr>gid = 5, roots = [2]\<rparr>,
     dataframe = \<lparr>index_names = [''node''], columns = [''time''],
        rows = [((2, []), [(''time'', Num 300)]), ((3, []), [(''time'', Num 4000)])]\<rparr>,
     exc_metrics = [''time''], inc_metrics = []\<rparr>"

text \<open>A root with two children of different frames, each with one child; the two
  grandchildren have the same frame. The table has lost the rows of the two children
  of the root.\<close>

definition twin_heap :: heap where
  "twin_heap = \<lparr>node_at = map_of
      [(0, \<lparr>frame = [(''name'', ''root'')], nid = 0, children = [1, 2], parents = []\<rparr>),
       (1, \<lparr>frame = [(''name'', ''a'')], nid = 1, children = [3], parents = [0]\<rparr>),
       (2, \<lparr>frame = [(''name'', ''b'')], nid = 3, children = [4], parents = [0]\<rparr>),
       (3, \<lparr>frame = [(''name'', ''leaf'')], nid = 2, children = [], parents = [1]\<rparr>),
       (4, \<lparr>frame = [(''name'', ''leaf'')], nid = 4, children = [], parents = [2]\<rparr>)],
    next_id = 6\<rparr>"

definition twin_gf :: graphframe where
  "twin_gf = \<lparr>graph = \<lparr>gid = 5, roots = [0]\<rparr>,
     dataframe = \<lparr>index_names = [''node''], columns = [''time''],
        rows = [((0, []), [(''time'', Num 1)]), ((3, []), [(''time'', Num 10)]),
                ((4, []), [(''time'', Num 100)])]\<rparr>,
     exc_metrics = [''time''], inc_metrics = []\<rparr>"

section \<open>Properties\<close>

subsection \<open>Sums\<close>

text \<open>
  C5. On the four-node chain root, child, grandchild, leaf with the exclusive values
  2, 3, 4, 5, \<^verbatim>\<open>subtree_sum\<close> with the default operator writes the inclusive sums
  14, 12, 9, 5 for root, child, grandchild and leaf, both into a new output column and
  in place.
\<close>

theorem chain_subtree_sum:
  "fst (subtree_sum 1000 chain_heap chain_gf [''time''] (Some [''time (inc)'']) np_sum) = None
   \<and> map (\<lambda>n. df_cell (dataframe (snd (subtree_sum 1000 chain_heap chain_gf [''time'']
                 (Some [''time (inc)'']) np_sum))) (n, []) ''time (inc)'') [0, 1, 2, 3]
       = [Num 14, Num 12, Num 9, Num 5]
   \<and> fst (subtree_sum 1000 chain_heap chain_gf [''time''] None np_sum) = None
   \<and> map (\<lambda>n. df_cell (dataframe (snd (subtree_sum 1000 chain_heap chain_gf [''time'']
                 None np_sum))) (n, []) ''time'') [0, 1, 2, 3]
       = [Num 14, Num 12, Num 9, Num 5]"
  by code_simp

text \<open>
  C8. With one input column and two output columns, \<^verbatim>\<open>subtree_sum\<close> raises the
  \<^verbatim>\<open>ValueError\<close> of the length check only after \<^verbatim>\<open>_init_sum_columns\<close> has written the
  first output column: the dataframe has the new column \<^verbatim>\<open>a\<close> when the call fails.
\<close>

theorem mismatch_writes_column:
  "fst (subtree_sum 1000 chain_heap chain_gf [''time''] (Some [''a'', ''b'']) np_sum)
     = Some (ValueError ''columns out_columns must be the same length!'')
   \<and> columns (dataframe chain_gf) = [''time'']
   \<and> columns (dataframe (snd (subtree_sum 1000 chain_heap chain_gf [''time'']
        (Some [''a'', ''b'']) np_sum))) = [''time'', ''a'']
   \<and> df_cell (dataframe (snd (subtree_sum 1000 chain_heap chain_gf [''time'']
        (Some [''a'', ''b'']) np_sum))) (0, []) ''a'' = Num 2
   \<and> dataframe (snd (subtree_sum 1000 chain_heap chain_gf [''time''] (Some [''a'', ''b'']) np_sum))
       \<noteq> dataframe chain_gf"
  by code_simp

text \<open>
  C4. On a tree whose table has the compound index (node, rank), \<^verbatim>\<open>subgraph_sum\<close>
  takes the branch of \<^verbatim>\<open>subtree_sum\<close>, and the two algorithms disagree: the subtree
  algorithm gives the root, at rank 0, the sum over both ranks (1111), the general
  algorithm the sum over rank 0 only (101).
\<close>

theorem subtree_sum_mixes_ranks:
  "is_tree 1000 ranks_heap (graph ranks_gf) = Inr True
   \<and> subgraph_sum 1000 ranks_heap ranks_gf [''time''] (Some [''time (inc)'']) np_sum
       = subtree_sum 1000 ranks_heap ranks_gf [''time''] (Some [''time (inc)'']) np_sum
   \<and> df_cell (dataframe (snd (subtree_sum 1000 ranks_heap ranks_gf [''time'']
        (Some [''time (inc)'']) np_sum))) (0, [0]) ''time (inc)'' = Num 1111
   \<and> df_cell (dataframe (snd (subgraph_sum_general 1000 ranks_heap ranks_gf [''time'']
        (Some [''time (inc)'']) np_sum))) (0, [0]) ''time (inc)'' = Num 101"
  by code_simp

subsection \<open>Filter\<close>

text \<open>
  C10. When \<^verbatim>\<open>filter\<close> with \<^verbatim>\<open>squash=False\<close> returns a GraphFrame, its graph is the
  graph object of the input, its exclusive and inclusive metrics are the input's, its
  table has the index and the columns of the input's and a selection of its rows, and
  the input GraphFrame and the heap of nodes are as they were before the call.
\<close>

theorem filter_no_squash_frame:
  assumes "filter_gf nz lim h self fo False = (Inr gf', self', h')"
  shows "graph gf' = graph self
       \<and> exc_metrics gf' = exc_metrics self
       \<and> inc_metrics gf' = inc_metrics self
       \<and> index_names (dataframe gf') = index_names (dataframe self)
       \<and> columns (dataframe gf') = columns (dataframe self)
       \<and> (\<exists>P. rows (dataframe gf') = filter P (rows (dataframe self)))
       \<and> self' = self \<and> h' = h"
proof -
  from assms obtain frows where fr: "filtered_rows self fo = Inr frows"
    by (auto simp: filter_gf_def split: sum.splits)
  from assms fr have gf': "gf' = \<lparr>graph = graph self,
        dataframe = (dataframe self)\<lparr>rows := frows\<rparr>,
        exc_metrics = exc_metrics self, inc_metrics = inc_metrics self\<rparr>"
    and rest: "self' = self" "h' = h"
    by (auto simp: filter_gf_def init_graphframe_def Let_def split: if_splits)
  from fr have "\<exists>P. frows = filter P (rows (dataframe self))"
    by (cases fo) (auto simp: filtered_rows_def)
  with gf' rest show ?thesis by simp
qed

theorem filter_no_squash_frame_witness:
  "filter_gf normalize 1000 chain_heap chain_gf
       (Callable (\<lambda>k r. cell_of r ''time'' \<noteq> Num 3)) False
     = (Inr (chain_gf\<lparr>dataframe := (dataframe chain_gf)\<lparr>rows :=
            [((0, []), [(''time'', Num 2)]), ((2, []), [(''time'', Num 4)]),
             ((3, []), [(''time'', Num 5)])]\<rparr>\<rparr>), chain_gf, chain_heap)
   \<and> graph (chain_gf\<lparr>dataframe := (dataframe chain_gf)\<lparr>rows :=
            [((0, []), [(''time'', Num 2)]), ((2, []), [(''time'', Num 4)]),
             ((3, []), [(''time'', Num 5)])]\<rparr>\<rparr>) = graph chain_gf"
proof -
  have run: "filter_gf normalize 1000 chain_heap chain_gf
       (Callable (\<lambda>k r. cell_of r ''time'' \<noteq> Num 3)) False
     = (Inr (chain_gf\<lparr>dataframe := (dataframe chain_gf)\<lparr>rows :=
            [((0, []), [(''time'', Num 2)]), ((2, []), [(''time'', Num 4)]),
             ((3, []), [(''time'', Num 5)])]\<rparr>\<rparr>), chain_gf, chain_heap)"
    by (simp add: filter_gf_def filtered_rows_def init_graphframe_def chain_gf_def cell_of_def)
  from filter_no_squash_frame [OF run] run show ?thesis by simp
qed

subsection \<open>Arithmetic of two frames\<close>

lemma cell_of_update: "cell_of (AList.update c v r) m = (if m = c then v else cell_of r m)"
  by (simp add: cell_of_def update_conv')

lemma cell_of_update_cells:
  "cell_of (update_cells cols g r0) m
     = (if m \<in> set cols \<and> g m \<noteq> NaN then g m else cell_of r0 m)"
  unfolding update_cells_def
proof (induction cols arbitrary: r0)
  case Nil
  then show ?case by simp
next
  case (Cons c cs)
  then show ?case by (cases "g c") (auto simp: cell_of_update)
qed

lemma map_of_map_row:
  "map_of rs k = Some cells \<Longrightarrow> map_of (map (\<lambda>r. (fst r, F r)) rs) k = Some (F (k, cells))"
  by (induction rs) (auto split: if_splits)


text \<open>
  C9. For a GraphFrame A with a table indexed by node, distinct row keys and all its
  metrics among the columns, \<^verbatim>\<open>A.add(A)\<close> returns a frame on the graph of A with the
  rows and columns of A, no row and no column added, in which every numeric metric
  value is twice the value in A. (\<^verbatim>\<open>unify\<close> returns at once: the two copies share the
  graph.)
\<close>

theorem add_self_doubles:
  assumes idx: "''node'' \<in> set (index_names (dataframe A))"
    and keys: "distinct (df_keys (dataframe A))"
    and cols: "set (exc_metrics A @ inc_metrics A) \<subseteq> set (columns (dataframe A))"
  shows "\<exists>R. add_gf un h A A = (Inr R, h)
           \<and> graph R = graph A
           \<and> df_keys (dataframe R) = df_keys (dataframe A)
           \<and> columns (dataframe R) = columns (dataframe A)
           \<and> (\<forall>k \<in> set (df_keys (dataframe A)). \<forall>m \<in> set (exc_metrics A @ inc_metrics A). \<forall>v.
                 df_cell (dataframe A) k m = Num v \<longrightarrow> df_cell (dataframe R) k m = Num (2 * v))"
proof -
  define am where "am = all_metrics A A"
  have am: "set am = set (exc_metrics A @ inc_metrics A)"
    by (auto simp: am_def all_metrics_def)
  define F where "F = (\<lambda>r :: row.
      update_cells (columns (dataframe A))
        (\<lambda>c. if c \<in> set am \<and> fst r \<in> set (df_keys (dataframe A))
             then cell_add (cell_of (snd r) c) (df_cell (dataframe A) (fst r) c) else NaN)
        (snd r))"
  define R where "R = A\<lparr>dataframe := (dataframe A)\<lparr>rows :=
      map (\<lambda>r. (fst r, F r)) (rows (dataframe A))\<rparr>\<rparr>"
  have copy: "copy_gf A = Inr A"
    using idx by (simp add: copy_gf_def init_graphframe_def)
  have uni: "unify un h A A = (None, A, A, h)"
    by (simp add: unify_def)
  have "\<not> (\<exists>m \<in> set am. m \<notin> set (columns (dataframe A)))"
    using cols am by auto
  then have op: "operator A A cell_add = Inr R"
    unfolding operator_def Let_def am_def [symmetric] R_def F_def by simp
  have run: "add_gf un h A A = (Inr R, h)"
    by (simp add: add_gf_def copy uni op)
  have k: "df_keys (dataframe R) = df_keys (dataframe A)"
    by (simp add: R_def df_keys_def comp_def)
  have dbl: "df_cell (dataframe R) k m = Num (2 * v)"
    if kin: "k \<in> set (df_keys (dataframe A))" and m: "m \<in> set (exc_metrics A @ inc_metrics A)"
      and v: "df_cell (dataframe A) k m = Num v" for k m v
  proof -
    from kin have "map_of (rows (dataframe A)) k \<noteq> None"
      by (simp add: map_of_eq_None_iff df_keys_def)
    then obtain cells where c: "map_of (rows (dataframe A)) k = Some cells"
      by auto
    with v have cv: "cell_of cells m = Num v" by (simp add: df_cell_def)
    have "df_cell (dataframe R) k m = cell_of (F (k, cells)) m"
      using map_of_map_row [OF c, of F] by (simp add: df_cell_def R_def)
    also have "\<dots> = Num (2 * v)"
      using kin m cols am cv v
      by (auto simp: F_def cell_of_update_cells)
    finally show ?thesis .
  qed
  show ?thesis
    using run k dbl by (intro exI [of _ R]) (simp add: R_def)
qed

theorem add_self_doubles_witness:
  "add_gf (graph_union 1000) ab_heap a_gf a_gf
     = (Inr (a_gf\<lparr>dataframe := (dataframe a_gf)\<lparr>rows :=
          [((1, []), [(''time'', Num 40)]), ((0, []), [(''time'', Num 14)])]\<rparr>\<rparr>), ab_heap)
   \<and> df_cell (dataframe a_gf) (1, []) ''time'' = Num 20"
proof -
  have 1: "''node'' \<in> set (index_names (dataframe a_gf))" by (simp add: a_gf_def)
  have 2: "distinct (df_keys (dataframe a_gf))" by (simp add: a_gf_def df_keys_def)
  have 3: "set (exc_metrics a_gf @ inc_metrics a_gf) \<subseteq> set (columns (dataframe a_gf))"
    by (simp add: a_gf_def)
  from add_self_doubles [OF 1 2 3, of "graph_union 1000" ab_heap]
  obtain R where "add_gf (graph_union 1000) ab_heap a_gf a_gf = (Inr R, ab_heap)" by blast
  moreover have "add_gf (graph_union 1000) ab_heap a_gf a_gf
     = (Inr (a_gf\<lparr>dataframe := (dataframe a_gf)\<lparr>rows :=
          [((1, []), [(''time'', Num 40)]), ((0, []), [(''time'', Num 14)])]\<rparr>\<rparr>), ab_heap)"
    by (simp add: add_gf_def copy_gf_def init_graphframe_def unify_def operator_def
        update_cells_def all_metrics_def df_keys_def df_cell_def cell_of_def a_gf_def)
  moreover have "df_cell (dataframe a_gf) (1, []) ''time'' = Num 20"
    by (simp add: df_cell_def cell_of_def a_gf_def)
  ultimately show ?thesis by simp
qed

subsection \<open>Unify\<close>


lemma cell_of_set_cells_snoc:
  "cell_of (set_cells r (cvs @ [(c, v)])) m = (if m = c then v else cell_of (set_cells r cvs) m)"
  by (induction r cvs rule: set_cells.induct) (auto simp: cell_of_update)

lemma cell_of_set_cells_const:
  "cell_of (set_cells r (map (\<lambda>j. (j, v)) js)) m = (if m \<in> set js then v else cell_of r m)"
  by (induction js arbitrary: r) (auto simp: cell_of_update)


lemma join_missing_Inr:
  "join_missing cols rs = Inr (cs', rs') \<Longrightarrow> rs' = map joinf rs \<and> cs' = cols @ [''_missing_node'']"
  by (auto simp: join_missing_def split: if_splits)

lemma insert_missing_rows_rows:
  assumes ok: "insert_missing_rows self other = (None, S')"
  shows "\<exists>js jo. (js = id \<or> js = joinf) \<and> (jo = id \<or> jo = joinf) \<and>
     rows (dataframe S') =
       mark_rows (map fst (filter (\<lambda>r. fst r \<notin> set (df_keys (dataframe other))) (rows (dataframe self))))
          ''L'' (map js (rows (dataframe self)))
       @ map (\<lambda>r. (fst r, set_cells (snd r)
                (map (\<lambda>j. (j, Num 0)) (all_metrics self other) @ [(''_missing_node'', Str ''R'')])))
           (map jo (filter (\<lambda>r. fst r \<notin> set (df_keys (dataframe self))) (rows (dataframe other))))
     \<and> (filter (\<lambda>r. fst r \<notin> set (df_keys (dataframe other))) (rows (dataframe self)) \<noteq> [] \<longrightarrow> js = joinf)"
proof -
  define snio where "snio = filter (\<lambda>r. fst r \<notin> set (df_keys (dataframe other))) (rows (dataframe self))"
  define onis where "onis = filter (\<lambda>r. fst r \<notin> set (df_keys (dataframe self))) (rows (dataframe other))"
  note defs = insert_missing_rows_def Let_def snio_def [symmetric] onis_def [symmetric]
  consider (a) "snio = []" "onis = []" | (b) "snio \<noteq> []" "onis = []"
    | (c) "snio = []" "onis \<noteq> []" | (d) "snio \<noteq> []" "onis \<noteq> []"
    by blast
  then show ?thesis
  proof cases
    case a
    with ok have "rows (dataframe S') = rows (dataframe self)"
      by (auto simp: defs mark_rows_def)
    with a show ?thesis
      unfolding snio_def onis_def by (intro exI [of _ id]) (simp add: mark_rows_def)
  next
    case b
    with ok have "rows (dataframe S') = mark_rows (map fst snio) ''L'' (map joinf (rows (dataframe self)))"
      by (auto simp: defs split: sum.splits dest!: join_missing_Inr)
    with b show ?thesis
      unfolding snio_def onis_def by (intro exI [of _ joinf] exI [of _ id]) simp
  next
    case c
    with ok have "rows (dataframe S') = map joinf (rows (dataframe self))
        @ map (\<lambda>r. (fst r, set_cells (snd r)
                (map (\<lambda>j. (j, Num 0)) (all_metrics self other) @ [(''_missing_node'', Str ''R'')])))
           (map joinf onis)"
      by (auto simp: defs mark_rows_def split: sum.splits dest!: join_missing_Inr)
    with c show ?thesis
      unfolding snio_def onis_def by (intro exI [of _ joinf]) (simp add: mark_rows_def)
  next
    case d
    with ok have "rows (dataframe S') = mark_rows (map fst snio) ''L'' (map joinf (rows (dataframe self)))
        @ map (\<lambda>r. (fst r, set_cells (snd r)
                (map (\<lambda>j. (j, Num 0)) (all_metrics self other) @ [(''_missing_node'', Str ''R'')])))
           (map joinf onis)"
      by (auto simp: defs split: sum.splits dest!: join_missing_Inr)
    with d show ?thesis
      unfolding snio_def onis_def by (intro exI [of _ joinf]) simp
  qed
qed


lemma joinf_simps [simp]: "fst (joinf r) = fst r"
  "c \<noteq> ''_missing_node'' \<Longrightarrow> cell_of (snd (joinf r)) c = cell_of (snd r) c"
  by (simp_all add: joinf_def cell_of_update)

lemma mark_rows_keys [simp]: "map fst (mark_rows ks v rs) = map fst rs"
  by (simp add: mark_rows_def comp_def if_distrib [of fst] cong: if_cong)

lemma mark_rows_mem:
  "r' \<in> set (mark_rows ks v rs) \<Longrightarrow>
     \<exists>r \<in> set rs. fst r' = fst r
        \<and> (\<forall>c. c \<noteq> ''_missing_node'' \<longrightarrow> cell_of (snd r') c = cell_of (snd r) c)
        \<and> (fst r \<in> set ks \<longrightarrow> cell_of (snd r') ''_missing_node'' = Str v)"
  by (force simp: mark_rows_def cell_of_update split: if_splits)

lemma filter_keys: "map fst (filter (\<lambda>r. P (fst r)) rs) = filter P (map fst rs)"
  by (induction rs) auto

lemma insert_missing_rows_props:
  assumes ok: "insert_missing_rows self other = (None, S')"
  shows "df_keys (dataframe S') = df_keys (dataframe self)
            @ filter (\<lambda>k. k \<notin> set (df_keys (dataframe self))) (df_keys (dataframe other))"
    and "\<forall>r \<in> set (rows (dataframe S')).
           (fst r \<notin> set (df_keys (dataframe self)) \<longrightarrow>
              cell_of (snd r) ''_missing_node'' = Str ''R''
              \<and> (\<forall>m \<in> set (all_metrics self other). m \<noteq> ''_missing_node'' \<longrightarrow> cell_of (snd r) m = Num 0))
         \<and> (fst r \<in> set (df_keys (dataframe self)) \<and> fst r \<notin> set (df_keys (dataframe other)) \<longrightarrow>
              cell_of (snd r) ''_missing_node'' = Str ''L'')
         \<and> (fst r \<in> set (df_keys (dataframe self)) \<longrightarrow>
              (\<exists>r0 \<in> set (rows (dataframe self)). fst r0 = fst r
                 \<and> (\<forall>c. c \<noteq> ''_missing_node'' \<longrightarrow> cell_of (snd r) c = cell_of (snd r0) c)))"
proof -
  define snio where "snio = filter (\<lambda>r. fst r \<notin> set (df_keys (dataframe other))) (rows (dataframe self))"
  define onis where "onis = filter (\<lambda>r. fst r \<notin> set (df_keys (dataframe self))) (rows (dataframe other))"
  define zf where "zf = (\<lambda>r :: row. (fst r, set_cells (snd r)
        (map (\<lambda>j. (j, Num 0)) (all_metrics self other) @ [(''_missing_node'', Str ''R'')])))"
  from insert_missing_rows_rows [OF ok] obtain js jo where
    js: "js = id \<or> js = joinf" and jo: "jo = id \<or> jo = joinf"
    and rws: "rows (dataframe S') = mark_rows (map fst snio) ''L'' (map js (rows (dataframe self)))
                @ map zf (map jo onis)"
    and sn: "snio \<noteq> [] \<longrightarrow> js = joinf"
    unfolding snio_def onis_def zf_def by blast
  have kjs: "map fst (map js rs) = map fst rs" for rs using js by (auto simp: comp_def)
  have kjo: "map fst (map jo rs) = map fst rs" for rs using jo by (auto simp: comp_def)
  have kzf: "map fst (map zf rs) = map fst rs" for rs by (simp add: zf_def comp_def)
  have konis: "map fst onis = filter (\<lambda>k. k \<notin> set (df_keys (dataframe self))) (df_keys (dataframe other))"
    by (simp add: onis_def df_keys_def filter_map comp_def)
  show "df_keys (dataframe S') = df_keys (dataframe self)
            @ filter (\<lambda>k. k \<notin> set (df_keys (dataframe self))) (df_keys (dataframe other))"
  proof -
    have "df_keys (dataframe S') = map fst (mark_rows (map fst snio) ''L'' (map js (rows (dataframe self))))
            @ map fst (map zf (map jo onis))"
      by (simp only: df_keys_def rws map_append)
    also have "\<dots> = map fst (rows (dataframe self)) @ map fst onis"
      by (simp only: mark_rows_keys kjs kzf kjo)
    finally show ?thesis by (simp only: konis df_keys_def)
  qed
  show "\<forall>r \<in> set (rows (dataframe S')).
           (fst r \<notin> set (df_keys (dataframe self)) \<longrightarrow>
              cell_of (snd r) ''_missing_node'' = Str ''R''
              \<and> (\<forall>m \<in> set (all_metrics self other). m \<noteq> ''_missing_node'' \<longrightarrow> cell_of (snd r) m = Num 0))
         \<and> (fst r \<in> set (df_keys (dataframe self)) \<and> fst r \<notin> set (df_keys (dataframe other)) \<longrightarrow>
              cell_of (snd r) ''_missing_node'' = Str ''L'')
         \<and> (fst r \<in> set (df_keys (dataframe self)) \<longrightarrow>
              (\<exists>r0 \<in> set (rows (dataframe self)). fst r0 = fst r
                 \<and> (\<forall>c. c \<noteq> ''_missing_node'' \<longrightarrow> cell_of (snd r) c = cell_of (snd r0) c)))"
  proof
    fix r assume "r \<in> set (rows (dataframe S'))"
    then consider (left) "r \<in> set (mark_rows (map fst snio) ''L'' (map js (rows (dataframe self))))"
      | (right) "r \<in> set (map zf (map jo onis))"
      using rws by auto
    then show "(fst r \<notin> set (df_keys (dataframe self)) \<longrightarrow>
              cell_of (snd r) ''_missing_node'' = Str ''R''
              \<and> (\<forall>m \<in> set (all_metrics self other). m \<noteq> ''_missing_node'' \<longrightarrow> cell_of (snd r) m = Num 0))
         \<and> (fst r \<in> set (df_keys (dataframe self)) \<and> fst r \<notin> set (df_keys (dataframe other)) \<longrightarrow>
              cell_of (snd r) ''_missing_node'' = Str ''L'')
         \<and> (fst r \<in> set (df_keys (dataframe self)) \<longrightarrow>
              (\<exists>r0 \<in> set (rows (dataframe self)). fst r0 = fst r
                 \<and> (\<forall>c. c \<noteq> ''_missing_node'' \<longrightarrow> cell_of (snd r) c = cell_of (snd r0) c)))"
    proof cases
      case left
      from mark_rows_mem [OF left] obtain r1 where
        r1: "r1 \<in> set (map js (rows (dataframe self)))" "fst r = fst r1"
          "\<forall>c. c \<noteq> ''_missing_node'' \<longrightarrow> cell_of (snd r) c = cell_of (snd r1) c"
          "fst r1 \<in> set (map fst snio) \<longrightarrow> cell_of (snd r) ''_missing_node'' = Str ''L''"
        by blast
      from r1(1) obtain r0 where r0: "r0 \<in> set (rows (dataframe self))" "r1 = js r0" by auto
      have f: "fst r1 = fst r0" using r0 js by auto
      have c: "\<forall>c. c \<noteq> ''_missing_node'' \<longrightarrow> cell_of (snd r1) c = cell_of (snd r0) c"
        using r0 js by auto
      have kin: "fst r \<in> set (df_keys (dataframe self))"
        using r0 r1 f by (auto simp: df_keys_def)
      have "fst r \<notin> set (df_keys (dataframe other)) \<longrightarrow> fst r1 \<in> set (map fst snio)"
        using r0 r1 f by (auto simp: snio_def)
      with r1 r0 f c kin show ?thesis by auto
    next
      case right
      then obtain r2 where r2: "r2 \<in> set onis" "r = zf (jo r2)" by auto
      have k: "fst r = fst r2" using r2 jo by (auto simp: zf_def)
      have nin: "fst r \<notin> set (df_keys (dataframe self))"
        using r2 k by (auto simp: onis_def)
      have "cell_of (snd r) ''_missing_node'' = Str ''R''"
        using r2 by (simp add: zf_def cell_of_set_cells_snoc)
      moreover have "\<forall>m \<in> set (all_metrics self other). m \<noteq> ''_missing_node'' \<longrightarrow> cell_of (snd r) m = Num 0"
        using r2 by (simp add: zf_def cell_of_set_cells_snoc cell_of_set_cells_const)
      ultimately show ?thesis using nin by simp
    qed
  qed
qed

lemma rekey_fields [simp]:
  "index_names (rekey f df) = index_names df" "columns (rekey f df) = columns df"
  by (simp_all add: rekey_def)

lemma insert_missing_rows_other_fields:
  "insert_missing_rows self other = (e, S') \<Longrightarrow>
     graph S' = graph self \<and> exc_metrics S' = exc_metrics self \<and> inc_metrics S' = inc_metrics self"
  by (auto simp: insert_missing_rows_def Let_def split: sum.splits prod.splits if_splits)

text \<open>
  C7 (as the code has it). When \<^verbatim>\<open>unify\<close> returns on two frames with different
  graphs, both tables are re-keyed by the node map of the union. The right table
  receives no rows. The left table keeps its rows and receives, after them, the rows
  of the right table whose key it does not have; each of these has the marker
  \<^verbatim>\<open>R\<close> in \<^verbatim>\<open>_missing_node\<close> and 0 in every metric column. A row of the left table
  whose key the right table does not have has the marker \<^verbatim>\<open>L\<close>; every row of the
  left table keeps the values of its other columns.
\<close>

theorem unify_inserts_into_left_only:
  assumes run: "unify un h self other = (None, self', other', h')"
    and ne: "gid (graph self) \<noteq> gid (graph other)"
  shows "\<exists>ug nm. fst (un h (graph self) (graph other)) = Inr (ug, nm) \<and>
      (let f = (\<lambda>n. case nm n of None \<Rightarrow> n | Some m \<Rightarrow> m);
           S = rekey f (dataframe self);
           T = rekey f (dataframe other)
       in dataframe other' = T
        \<and> df_keys (dataframe self') = df_keys S @ filter (\<lambda>k. k \<notin> set (df_keys S)) (df_keys T)
        \<and> (\<forall>r \<in> set (rows (dataframe self')).
             (fst r \<notin> set (df_keys S) \<longrightarrow>
                cell_of (snd r) ''_missing_node'' = Str ''R''
                \<and> (\<forall>m \<in> set (all_metrics self other). m \<noteq> ''_missing_node'' \<longrightarrow>
                      cell_of (snd r) m = Num 0))
           \<and> (fst r \<in> set (df_keys S) \<and> fst r \<notin> set (df_keys T) \<longrightarrow>
                cell_of (snd r) ''_missing_node'' = Str ''L'')
           \<and> (fst r \<in> set (df_keys S) \<longrightarrow>
                (\<exists>r0 \<in> set (rows S). fst r0 = fst r
                   \<and> (\<forall>c. c \<noteq> ''_missing_node'' \<longrightarrow> cell_of (snd r) c = cell_of (snd r0) c)))))"
proof -
  from run ne obtain ug nm h1 where un: "un h (graph self) (graph other) = (Inr (ug, nm), h1)"
    by (auto simp: unify_def split: prod.splits sum.splits if_splits)
  define f where "f = (\<lambda>n. case nm n of None \<Rightarrow> n | Some m \<Rightarrow> m)"
  define self1 where "self1 = self\<lparr>dataframe := rekey f (dataframe self)\<rparr>"
  define other1 where "other1 = other\<lparr>dataframe := rekey f (dataframe other)\<rparr>"
  from run ne un obtain S2 where ins: "insert_missing_rows self1 other1 = (None, S2)"
    and s': "self' = S2\<lparr>graph := ug\<rparr>" and o': "other' = other1\<lparr>graph := ug\<rparr>"
    by (auto simp: unify_def Let_def f_def self1_def other1_def
        split: prod.splits sum.splits if_splits option.splits)
  have am: "all_metrics self1 other1 = all_metrics self other"
    by (simp add: all_metrics_def self1_def other1_def)
  from insert_missing_rows_props [OF ins] am s' o' un
  show ?thesis
    by (intro exI [of _ ug] exI [of _ nm])
       (simp add: Let_def f_def [symmetric] self1_def other1_def)
qed

theorem unify_inserts_into_left_only_witness:
  "unify (graph_union 1000) ab_heap a_gf b_gf
     = (None,
        \<lparr>graph = \<lparr>gid = 9, roots = [6]\<rparr>,
         dataframe = \<lparr>index_names = [''node''], columns = [''time'', ''_missing_node''],
           rows = [((7, []), [(''time'', Num 20), (''_missing_node'', Str ''L'')]),
                   ((6, []), [(''time'', Num 7), (''_missing_node'', Str [])]),
                   ((8, []), [(''time'', Num 0), (''_missing_node'', Str ''R'')])]\<rparr>,
         exc_metrics = [''time''], inc_metrics = []\<rparr>,
        \<lparr>graph = \<lparr>gid = 9, roots = [6]\<rparr>,
         dataframe = \<lparr>index_names = [''node''], columns = [''time''],
           rows = [((6, []), [(''time'', Num 300)]), ((8, []), [(''time'', Num 4000)])]\<rparr>,
         exc_metrics = [''time''], inc_metrics = []\<rparr>,
        snd (snd (snd (unify (graph_union 1000) ab_heap a_gf b_gf))))
   \<and> gid (graph a_gf) \<noteq> gid (graph b_gf)
   \<and> (\<exists>ug nm. fst (graph_union 1000 ab_heap (graph a_gf) (graph b_gf)) = Inr (ug, nm))"
proof -
  have p: "fst (unify (graph_union 1000) ab_heap a_gf b_gf) = None
     \<and> fst (snd (unify (graph_union 1000) ab_heap a_gf b_gf)) =
        \<lparr>graph = \<lparr>gid = 9, roots = [6]\<rparr>,
         dataframe = \<lparr>index_names = [''node''], columns = [''time'', ''_missing_node''],
           rows = [((7, []), [(''time'', Num 20), (''_missing_node'', Str ''L'')]),
                   ((6, []), [(''time'', Num 7), (''_missing_node'', Str [])]),
                   ((8, []), [(''time'', Num 0), (''_missing_node'', Str ''R'')])]\<rparr>,
         exc_metrics = [''time''], inc_metrics = []\<rparr>
     \<and> fst (snd (snd (unify (graph_union 1000) ab_heap a_gf b_gf))) =
        \<lparr>graph = \<lparr>gid = 9, roots = [6]\<rparr>,
         dataframe = \<lparr>index_names = [''node''], columns = [''time''],
           rows = [((6, []), [(''time'', Num 300)]), ((8, []), [(''time'', Num 4000)])]\<rparr>,
         exc_metrics = [''time''], inc_metrics = []\<rparr>"
    by code_simp
  have run: "unify (graph_union 1000) ab_heap a_gf b_gf
     = (None,
        \<lparr>graph = \<lparr>gid = 9, roots = [6]\<rparr>,
         dataframe = \<lparr>index_names = [''node''], columns = [''time'', ''_missing_node''],
           rows = [((7, []), [(''time'', Num 20), (''_missing_node'', Str ''L'')]),
                   ((6, []), [(''time'', Num 7), (''_missing_node'', Str [])]),
                   ((8, []), [(''time'', Num 0), (''_missing_node'', Str ''R'')])]\<rparr>,
         exc_metrics = [''time''], inc_metrics = []\<rparr>,
        \<lparr>graph = \<lparr>gid = 9, roots = [6]\<rparr>,
         dataframe = \<lparr>index_names = [''node''], columns = [''time''],
           rows = [((6, []), [(''time'', Num 300)]), ((8, []), [(''time'', Num 4000)])]\<rparr>,
         exc_metrics = [''time''], inc_metrics = []\<rparr>,
        snd (snd (snd (unify (graph_union 1000) ab_heap a_gf b_gf))))"
    using p by (simp add: prod_eq_iff)
  have ne: "gid (graph a_gf) \<noteq> gid (graph b_gf)" by (simp add: a_gf_def b_gf_def)
  from unify_inserts_into_left_only [OF run ne] run ne show ?thesis by blast
qed

text \<open>
  C7 (as stated) fails: after unifying A (nodes y, x) with B (nodes y, z), the left
  table has the three nodes, the right table only its own two; the row of x is not
  inserted into the right table.
\<close>

theorem unify_right_table_not_filled:
  "fst (unify (graph_union 1000) ab_heap a_gf b_gf) = None
   \<and> df_keys (dataframe (fst (snd (unify (graph_union 1000) ab_heap a_gf b_gf))))
       = [(7, []), (6, []), (8, [])]
   \<and> df_keys (dataframe (fst (snd (snd (unify (graph_union 1000) ab_heap a_gf b_gf)))))
       = [(6, []), (8, [])]"
  by code_simp

subsection \<open>Adding frames with different nodes\<close>

lemma set_append_columns [simp]: "set (append_columns cs ds) = set cs \<union> set ds"
  by (auto simp: append_columns_def)

lemma df_cell_Cons:
  "df_cell (df\<lparr>rows := (k', c) # rs\<rparr>) k m
     = (if k = k' then cell_of c m else df_cell (df\<lparr>rows := rs\<rparr>) k m)"
  by (simp add: df_cell_def)


text \<open>
  C6. Let A have the two rows x and y and B the two rows y and z (single index), let the
  union of the graphs map A's y and B's y to one node y' and x and z to two other nodes
  x' and z', and let m be a metric column with numeric values in the four rows. Then
  \<^verbatim>\<open>A.add(B)\<close> returns a frame on the union graph with the rows x', y', z', whose value
  of m at x' is A's value at x, at y' the sum of the two values at y, and at z' B's
  value at z.
\<close>

theorem add_missing_nodes:
  assumes un: "un h (graph A) (graph B) = (Inr (ug, nm), h')"
    and ne: "gid (graph A) \<noteq> gid (graph B)"
    and nm: "nm x = Some x'" "nm y = Some y'" "nm yb = Some y'" "nm z = Some z'"
    and dist: "x' \<noteq> y'" "y' \<noteq> z'" "x' \<noteq> z'"
    and idx: "''node'' \<in> set (index_names (dataframe A))" "''node'' \<in> set (index_names (dataframe B))"
    and rowsA: "rows (dataframe A) = [((x, []), cx), ((y, []), cy)]"
    and rowsB: "rows (dataframe B) = [((yb, []), cyb), ((z, []), cz)]"
    and mk: "''_missing_node'' \<notin> set (columns (dataframe A))"
            "''_missing_node'' \<notin> set (columns (dataframe B))"
    and mets: "set (all_metrics A B) \<subseteq> set (columns (dataframe B))"
    and m: "m \<in> set (all_metrics A B)" "m \<in> set (columns (dataframe A))"
    and vals: "cell_of cx m = Num ax" "cell_of cy m = Num ay"
              "cell_of cyb m = Num b" "cell_of cz m = Num bz"
  shows "\<exists>R. add_gf un h A B = (Inr R, h')
           \<and> graph R = ug
           \<and> df_keys (dataframe R) = [(x', []), (y', []), (z', [])]
           \<and> df_cell (dataframe R) (x', []) m = Num ax
           \<and> df_cell (dataframe R) (y', []) m = Num (ay + b)
           \<and> df_cell (dataframe R) (z', []) m = Num bz"
proof -
  have mne: "m \<noteq> ''_missing_node''" using m mk by auto
  define f where "f = (\<lambda>n. case nm n of None \<Rightarrow> n | Some k \<Rightarrow> k)"
  have f: "f x = x'" "f y = y'" "f yb = y'" "f z = z'" using nm by (simp_all add: f_def)
  define self1 where "self1 = A\<lparr>dataframe := rekey f (dataframe A)\<rparr>"
  define other1 where "other1 = B\<lparr>dataframe := rekey f (dataframe B)\<rparr>"
  have r1: "rows (dataframe self1) = [((x', []), cx), ((y', []), cy)]"
    by (simp add: self1_def rekey_def rowsA f row_node_def)
  have r2: "rows (dataframe other1) = [((y', []), cyb), ((z', []), cz)]"
    by (simp add: other1_def rekey_def rowsB f row_node_def)
  have am: "all_metrics self1 other1 = all_metrics A B"
    by (simp add: all_metrics_def self1_def other1_def)
  define zs where "zs = map (\<lambda>j. (j, Num 0)) (all_metrics A B) @ [(''_missing_node'', Str ''R'')]"
  define rx where "rx = AList.update ''_missing_node'' (Str ''L'') (AList.update ''_missing_node'' (Str []) cx)"
  define ry where "ry = AList.update ''_missing_node'' (Str []) cy"
  define rz where "rz = set_cells (AList.update ''_missing_node'' (Str []) cz) zs"
  define C where "C = append_columns (columns (dataframe A) @ [''_missing_node''])
       ((columns (dataframe B) @ [''_missing_node'']) @
         filter (\<lambda>j. j \<notin> set (columns (dataframe B) @ [''_missing_node''])) (all_metrics A B))"
  define S2 where "S2 = self1\<lparr>dataframe := (dataframe self1)\<lparr>columns := C,
       rows := [((x', []), rx), ((y', []), ry), ((z', []), rz)]\<rparr>\<rparr>"
  have c1: "columns (dataframe self1) = columns (dataframe A)"
    and c2: "columns (dataframe other1) = columns (dataframe B)"
    by (simp_all add: self1_def other1_def)
  have ins: "insert_missing_rows self1 other1 = (None, S2)"
    using dist mk
    by (simp add: insert_missing_rows_def Let_def df_keys_def r1 r2 c1 c2 am join_missing_def
        joinf_def mark_rows_def S2_def C_def rx_def ry_def rz_def zs_def)
  have nodesA: "\<not> (\<exists>n \<in> set (df_nodes (dataframe A)). nm n = None)"
    by (simp add: df_nodes_def rowsA row_node_def nm)
  have nodesB: "\<not> (\<exists>n \<in> set (df_nodes (dataframe B)). nm n = None)"
    by (simp add: df_nodes_def rowsB row_node_def nm)
  have uni: "unify un h A B = (None, S2\<lparr>graph := ug\<rparr>, other1\<lparr>graph := ug\<rparr>, h')"
    using ne un nodesA nodesB ins
    by (simp add: unify_def Let_def f_def [symmetric] self1_def [symmetric] other1_def [symmetric])
  have copy: "copy_gf A = Inr A" "copy_gf B = Inr B"
    using idx by (simp_all add: copy_gf_def init_graphframe_def)
  define am' where "am' = all_metrics (S2\<lparr>graph := ug\<rparr>) (other1\<lparr>graph := ug\<rparr>)"
  have am': "am' = all_metrics A B"
    by (simp add: am'_def all_metrics_def S2_def self1_def other1_def)
  define odf where "odf = dataframe other1"
  define g where "g = (\<lambda>r :: row. \<lambda>c. if c \<in> set am' \<and> fst r \<in> set (df_keys odf)
          then cell_add (cell_of (snd r) c) (df_cell odf (fst r) c) else NaN)"
  define R where "R = S2\<lparr>graph := ug, dataframe := (dataframe S2)\<lparr>rows :=
      [((x', []), update_cells C (g ((x', []), rx)) rx),
       ((y', []), update_cells C (g ((y', []), ry)) ry),
       ((z', []), update_cells C (g ((z', []), rz)) rz)]\<rparr>\<rparr>"
  have nokey: "\<not> (\<exists>k \<in> set am'. k \<notin> set (columns (dataframe (other1\<lparr>graph := ug\<rparr>))))"
    using mets by (auto simp: am' c2)
  have op: "operator (S2\<lparr>graph := ug\<rparr>) (other1\<lparr>graph := ug\<rparr>) cell_add = Inr R"
    using nokey unfolding operator_def Let_def am'_def [symmetric]
    by (simp add: R_def g_def odf_def S2_def cong: if_cong)
  have run: "add_gf un h A B = (Inr R, h')"
    by (simp add: add_gf_def copy uni op)
  have okeys: "df_keys odf = [(y', []), (z', [])]" by (simp add: odf_def df_keys_def r2)
  have oy: "df_cell odf (y', []) m = Num b" and oz: "df_cell odf (z', []) m = Num bz"
    using dist vals by (simp_all add: odf_def df_cell_def r2)
  have cx: "cell_of rx m = Num ax" using mne vals by (simp add: rx_def cell_of_update)
  have cy: "cell_of ry m = Num ay" using mne vals by (simp add: ry_def cell_of_update)
  have cz: "cell_of rz m = Num 0"
    using mne m by (simp add: rz_def zs_def cell_of_set_cells_snoc cell_of_set_cells_const)
  have mC: "m \<in> set C" using m by (simp add: C_def)
  have mam: "m \<in> set am'" using m am' by simp
  have "df_cell (dataframe R) (x', []) m = Num ax"
    using dist cx mC by (simp add: R_def df_cell_def cell_of_update_cells g_def okeys)
  moreover have "df_cell (dataframe R) (y', []) m = Num (ay + b)"
    using dist cy oy mC mam by (simp add: R_def df_cell_def cell_of_update_cells g_def okeys)
  moreover have "df_cell (dataframe R) (z', []) m = Num bz"
    using dist cz oz mC mam by (simp add: R_def df_cell_def cell_of_update_cells g_def okeys)
  moreover have "df_keys (dataframe R) = [(x', []), (y', []), (z', [])]"
    by (simp add: R_def df_keys_def)
  moreover have "graph R = ug" by (simp add: R_def)
  ultimately show ?thesis using run by blast
qed

theorem add_missing_nodes_witness:
  "\<exists>R h'. add_gf (graph_union 1000) ab_heap a_gf b_gf = (Inr R, h')
     \<and> graph R = \<lparr>gid = 9, roots = [6]\<rparr>
     \<and> df_keys (dataframe R) = [(7, []), (6, []), (8, [])]
     \<and> df_cell (dataframe R) (7, []) ''time'' = Num 20
     \<and> df_cell (dataframe R) (6, []) ''time'' = Num 307
     \<and> df_cell (dataframe R) (8, []) ''time'' = Num 4000"
proof -
  have "case graph_union 1000 ab_heap (graph a_gf) (graph b_gf) of
          (Inr (ug, nm), h') \<Rightarrow> ug = \<lparr>gid = 9, roots = [6]\<rparr> \<and> nm 1 = Some 7 \<and> nm 0 = Some 6
               \<and> nm 2 = Some 6 \<and> nm 3 = Some 8
        | (Inl e, h') \<Rightarrow> False"
    by code_simp
  then obtain nm h' where un: "graph_union 1000 ab_heap (graph a_gf) (graph b_gf)
        = (Inr (\<lparr>gid = 9, roots = [6]\<rparr>, nm), h')"
    and nm: "nm 1 = Some 7" "nm 0 = Some 6" "nm 2 = Some 6" "nm 3 = Some 8"
    by (cases "graph_union 1000 ab_heap (graph a_gf) (graph b_gf)";
        cases "fst (graph_union 1000 ab_heap (graph a_gf) (graph b_gf))") auto
  have "\<exists>R. add_gf (graph_union 1000) ab_heap a_gf b_gf = (Inr R, h')
           \<and> graph R = \<lparr>gid = 9, roots = [6]\<rparr>
           \<and> df_keys (dataframe R) = [(7, []), (6, []), (8, [])]
           \<and> df_cell (dataframe R) (7, []) ''time'' = Num 20
           \<and> df_cell (dataframe R) (6, []) ''time'' = Num (7 + 300)
           \<and> df_cell (dataframe R) (8, []) ''time'' = Num 4000"
    by (rule add_missing_nodes [where A = a_gf and B = b_gf and un = "graph_union 1000"
          and h = ab_heap and nm = nm and h' = h' and x = 1 and y = 0 and yb = 2 and z = 3
          and cx = "[(''time'', Num 20)]" and cy = "[(''time'', Num 7)]"
          and cyb = "[(''time'', Num 300)]" and cz = "[(''time'', Num 4000)]"
          and m = "''time''", OF un _ nm])
       (simp_all add: a_gf_def b_gf_def all_metrics_def cell_of_def)
  then show ?thesis by auto
qed

subsection \<open>The sums keep the keys of the table\<close>

lemma copy_column_keys: "copy_column df c out = Inr df' \<Longrightarrow> df_keys df' = df_keys df"
  by (auto simp: copy_column_def df_keys_def comp_def case_prod_beta split: if_splits)

lemma init_out_keys: "init_out df ps = (e, df') \<Longrightarrow> df_keys df' = df_keys df"
proof (induction df ps rule: init_out.induct)
  case (1 df)
  then show ?case by simp
next
  case (2 df col out ps)
  then show ?case by (auto split: sum.splits dest: copy_column_keys)
qed

lemma init_sum_columns_keys:
  "init_sum_columns self cols outs = (r, self') \<Longrightarrow>
     graph self' = graph self \<and> df_keys (dataframe self') = df_keys (dataframe self)"
  by (auto simp: init_sum_columns_def split: option.splits prod.splits if_splits
      dest: init_out_keys)

lemma loc_assign_keys [simp]: "df_keys (loc_assign df n cols vals) = df_keys df"
  by (simp add: loc_assign_def df_keys_def comp_def if_distrib [of fst] cong: if_cong)

lemma loc_assign_at_keys [simp]: "df_keys (loc_assign_at df n i cols vals) = df_keys df"
  by (simp add: loc_assign_at_def df_keys_def comp_def if_distrib [of fst] cong: if_cong)

lemma subtree_loop_keys: "subtree_loop h f outs ns df = (e, df') \<Longrightarrow> df_keys df' = df_keys df"
proof (induction h f outs ns df rule: subtree_loop.induct)
  case (1 h f outs df)
  then show ?case by simp
next
  case (2 h f outs n ns df)
  then show ?case by (auto split: if_splits sum.splits)
qed

lemma multi_loop_keys: "multi_loop f cols outs n sub is df = (e, df') \<Longrightarrow> df_keys df' = df_keys df"
proof (induction f cols outs n sub "is" df rule: multi_loop.induct)
  case (1 f cols outs n sub df)
  then show ?case by simp
next
  case (2 f cols outs n sub i "is" df)
  then show ?case by (auto split: sum.splits)
qed

lemma subgraph_loop_keys:
  "subgraph_loop lim h f cols outs ns df = (e, df') \<Longrightarrow> df_keys df' = df_keys df"
proof (induction lim h f cols outs ns df rule: subgraph_loop.induct)
  case (1 lim h f cols outs df)
  then show ?case by simp
next
  case (2 lim h f cols outs n ns df)
  then show ?case
    by (auto split: sum.splits if_splits prod.splits option.splits dest: multi_loop_keys)
qed

lemma subtree_sum_keys:
  "subtree_sum lim h self cols outs f = (e, self') \<Longrightarrow>
     graph self' = graph self \<and> df_keys (dataframe self') = df_keys (dataframe self)"
  by (auto simp: subtree_sum_def split: prod.splits sum.splits
      dest!: init_sum_columns_keys subtree_loop_keys)

lemma subgraph_sum_general_keys:
  "subgraph_sum_general lim h self cols outs f = (e, self') \<Longrightarrow>
     graph self' = graph self \<and> df_keys (dataframe self') = df_keys (dataframe self)"
  by (auto simp: subgraph_sum_general_def split: prod.splits sum.splits
      dest!: init_sum_columns_keys subgraph_loop_keys)

lemma subgraph_sum_keys:
  "subgraph_sum lim h self cols outs f = (e, self') \<Longrightarrow>
     graph self' = graph self \<and> df_keys (dataframe self') = df_keys (dataframe self)"
  by (auto simp: subgraph_sum_def split: sum.splits bool.splits
      dest!: subtree_sum_keys subgraph_sum_general_keys)

lemma update_inclusive_columns_keys:
  "update_inclusive_columns lim h self = (e, self') \<Longrightarrow>
     graph self' = graph self \<and> df_keys (dataframe self') = df_keys (dataframe self)"
  by (auto simp: update_inclusive_columns_def Let_def dest!: subgraph_sum_keys)

lemma df_nodes_keys: "df_nodes df = map fst (df_keys df)"
  by (simp add: df_nodes_def df_keys_def row_node_def comp_def)

subsection \<open>Squash on an empty table\<close>

lemma rewire_Suc_unfold:
  "rewire (Suc d) o2n nd np s =
     (case connect np (connections s nd) (rw_heap s, new_roots s) of (h1, nr1) \<Rightarrow>
        (case (if nd \<in> set (visited s) then Some ([], s\<lparr>rw_heap := h1, new_roots := nr1\<rparr>)
               else rewire_children d o2n (kids h1 nd)
                      (case o2n nd of Some m \<Rightarrow> Some m | None \<Rightarrow> np)
                      (s\<lparr>rw_heap := h1, new_roots := nr1, visited := nd # visited s\<rparr>)) of
           None \<Rightarrow> None
         | Some (tr, s2) \<Rightarrow>
             (case o2n nd of
                Some m \<Rightarrow> Some ([m], s2)
              | None \<Rightarrow> Some (set_union (connections s2 nd) tr,
                          s2\<lparr>connections := (connections s2)(nd := set_union (connections s2 nd) tr)\<rparr>))))"
  by (simp add: Let_def split: prod.splits option.splits)


lemma rewire_Suc_elim:
  assumes "rewire (Suc d) o2n nd np s = Some (t, s')"
  obtains h1 nr1 tr s2 where
    "connect np (connections s nd) (rw_heap s, new_roots s) = (h1, nr1)"
    "nd \<in> set (visited s) \<longrightarrow> tr = [] \<and> s2 = s\<lparr>rw_heap := h1, new_roots := nr1\<rparr>"
    "nd \<notin> set (visited s) \<longrightarrow>
       rewire_children d o2n (kids h1 nd) (case o2n nd of Some m \<Rightarrow> Some m | None \<Rightarrow> np)
         (s\<lparr>rw_heap := h1, new_roots := nr1, visited := nd # visited s\<rparr>) = Some (tr, s2)"
    "\<forall>m. o2n nd = Some m \<longrightarrow> t = [m] \<and> s' = s2"
    "o2n nd = None \<longrightarrow> t = set_union (connections s2 nd) tr
        \<and> s' = s2\<lparr>connections := (connections s2)(nd := set_union (connections s2 nd) tr)\<rparr>"
proof -
  obtain h1 nr1 where c: "connect np (connections s nd) (rw_heap s, new_roots s) = (h1, nr1)"
    by (cases "connect np (connections s nd) (rw_heap s, new_roots s)")
  define r where "r = (if nd \<in> set (visited s) then Some ([], s\<lparr>rw_heap := h1, new_roots := nr1\<rparr>)
               else rewire_children d o2n (kids h1 nd)
                      (case o2n nd of Some m \<Rightarrow> Some m | None \<Rightarrow> np)
                      (s\<lparr>rw_heap := h1, new_roots := nr1, visited := nd # visited s\<rparr>))"
  have eq: "rewire (Suc d) o2n nd np s = (case r of None \<Rightarrow> None
         | Some (tr, s2) \<Rightarrow>
             (case o2n nd of
                Some m \<Rightarrow> Some ([m], s2)
              | None \<Rightarrow> Some (set_union (connections s2 nd) tr,
                          s2\<lparr>connections := (connections s2)(nd := set_union (connections s2 nd) tr)\<rparr>)))"
    unfolding r_def by (simp only: rewire_Suc_unfold c prod.case)
  from assms eq obtain tr s2 where r: "r = Some (tr, s2)"
    by (cases r) auto
  from assms eq r have fin: "case o2n nd of
                Some m \<Rightarrow> t = [m] \<and> s' = s2
              | None \<Rightarrow> t = set_union (connections s2 nd) tr \<and>
                          s' = s2\<lparr>connections := (connections s2)(nd := set_union (connections s2 nd) tr)\<rparr>"
    by (cases "o2n nd") auto
  show ?thesis
  proof (rule that [of h1 nr1 tr s2])
    show "connect np (connections s nd) (rw_heap s, new_roots s) = (h1, nr1)" by (rule c)
    show "nd \<in> set (visited s) \<longrightarrow> tr = [] \<and> s2 = s\<lparr>rw_heap := h1, new_roots := nr1\<rparr>"
      using r by (auto simp: r_def)
    show "nd \<notin> set (visited s) \<longrightarrow>
       rewire_children d o2n (kids h1 nd) (case o2n nd of Some m \<Rightarrow> Some m | None \<Rightarrow> np)
         (s\<lparr>rw_heap := h1, new_roots := nr1, visited := nd # visited s\<rparr>) = Some (tr, s2)"
      using r by (auto simp: r_def)
    show "\<forall>m. o2n nd = Some m \<longrightarrow> t = [m] \<and> s' = s2" using fin by auto
    show "o2n nd = None \<longrightarrow> t = set_union (connections s2 nd) tr
        \<and> s' = s2\<lparr>connections := (connections s2)(nd := set_union (connections s2 nd) tr)\<rparr>"
      using fin by auto
  qed
qed

lemma rewire_children_Cons_elim:
  assumes "rewire_children d o2n (c # cs) np s = Some (t, s')"
  obtains t1 s1 t2 where "rewire d o2n c np s = Some (t1, s1)"
    "rewire_children d o2n cs np s1 = Some (t2, s')" "t = set_union t1 t2"
  using assms by (auto split: option.splits)


lemma rewire_children_nothing:
  assumes single: "\<And>nd s t s'. rewire d o2n nd None s = Some (t, s') \<Longrightarrow> nothing_linked s
      \<Longrightarrow> t = [] \<and> nothing_linked s' \<and> rw_heap s' = rw_heap s"
  shows "rewire_children d o2n cs None s = Some (t, s') \<Longrightarrow> nothing_linked s
      \<Longrightarrow> t = [] \<and> nothing_linked s' \<and> rw_heap s' = rw_heap s"
proof (induction cs arbitrary: s t s')
  case Nil
  then show ?case by simp
next
  case (Cons c cs)
  from Cons.prems(1) obtain t1 s1 t2 where
    a: "rewire d o2n c None s = Some (t1, s1)"
    and b: "rewire_children d o2n cs None s1 = Some (t2, s')" and t: "t = set_union t1 t2"
    by (rule rewire_children_Cons_elim)
  from single [OF a Cons.prems(2)] have 1: "t1 = []" "nothing_linked s1" "rw_heap s1 = rw_heap s"
    by auto
  from Cons.IH [OF b 1(2)] 1 t show ?case by (simp add: set_union_def)
qed

lemma rewire_nothing:
  assumes none: "\<And>n. o2n n = None"
  shows "rewire d o2n nd None s = Some (t, s') \<Longrightarrow> nothing_linked s
      \<Longrightarrow> t = [] \<and> nothing_linked s' \<and> rw_heap s' = rw_heap s"
proof (induction d arbitrary: nd s t s')
  case 0
  then show ?case by simp
next
  case (Suc d)
  from Suc.prems(1) obtain h1 nr1 tr s2 where
    c: "connect None (connections s nd) (rw_heap s, new_roots s) = (h1, nr1)"
    and v: "nd \<in> set (visited s) \<longrightarrow> tr = [] \<and> s2 = s\<lparr>rw_heap := h1, new_roots := nr1\<rparr>"
    and nv: "nd \<notin> set (visited s) \<longrightarrow>
       rewire_children d o2n (kids h1 nd) (case o2n nd of Some m \<Rightarrow> Some m | None \<Rightarrow> None)
         (s\<lparr>rw_heap := h1, new_roots := nr1, visited := nd # visited s\<rparr>) = Some (tr, s2)"
    and fs: "\<forall>m. o2n nd = Some m \<longrightarrow> t = [m] \<and> s' = s2"
    and fin: "o2n nd = None \<longrightarrow> t = set_union (connections s2 nd) tr
        \<and> s' = s2\<lparr>connections := (connections s2)(nd := set_union (connections s2 nd) tr)\<rparr>"
    by (rule rewire_Suc_elim)
  from c Suc.prems(2) have h1: "h1 = rw_heap s" "nr1 = []"
    by (simp_all add: nothing_linked_def)
  have mid: "tr = [] \<and> nothing_linked s2 \<and> rw_heap s2 = rw_heap s"
  proof (cases "nd \<in> set (visited s)")
    case True
    with v h1 Suc.prems(2) show ?thesis by (simp add: nothing_linked_def)
  next
    case False
    from nv False have r: "rewire_children d o2n (kids h1 nd) None
         (s\<lparr>rw_heap := h1, new_roots := nr1, visited := nd # visited s\<rparr>) = Some (tr, s2)"
      by (simp add: none)
    have nl: "nothing_linked (s\<lparr>rw_heap := h1, new_roots := nr1, visited := nd # visited s\<rparr>)"
      using Suc.prems(2) h1 by (simp add: nothing_linked_def)
    from rewire_children_nothing [OF Suc.IH r nl] h1 show ?thesis by simp
  qed
  with fin none show ?case by (simp add: nothing_linked_def set_union_def)
qed

lemma squash_Inr_elim:
  assumes "squash nz lim h self = (Inr gf', h')"
  obtains t s h4 merges g' new_gf where
    "rewire_children lim (old_to_new h (remdups (df_nodes (dataframe self))))
        (roots (graph self)) None (squash_start h self) = Some (t, s)"
    "enumerate_traverse lim ((rw_heap s)\<lparr>next_id := Suc (next_id (rw_heap s))\<rparr>)
        \<lparr>gid = next_id (rw_heap s), roots = new_roots s\<rparr> = Inr h4"
    "nz lim h4 \<lparr>gid = next_id (rw_heap s), roots = new_roots s\<rparr> = (Inr merges, h', g')"
    "init_graphframe g'
        (groupby_agg (exc_metrics self @ inc_metrics self)
           (rekey (\<lambda>n. case merges n of None \<Rightarrow> n | Some m \<Rightarrow> m)
              (rekey (\<lambda>n. case old_to_new h (remdups (df_nodes (dataframe self))) n of
                             None \<Rightarrow> n | Some m \<Rightarrow> m) (dataframe self))))
        (exc_metrics self) (inc_metrics self) = Inr new_gf"
    "update_inclusive_columns lim h' new_gf = (None, gf')"
  using assms unfolding squash_def Let_def
  by (auto split: option.splits sum.splits prod.splits)

lemma rows_of_keys_empty: "df_keys df = [] \<Longrightarrow> rows df = []"
  by (simp add: df_keys_def)

lemma groupby_agg_keys [simp]: "df_keys (groupby_agg ms df) = sort (remdups (df_keys df))"
  by (simp add: groupby_agg_def df_keys_def comp_def)

lemma rekey_keys: "df_keys (rekey f df) = map (\<lambda>k. (f (fst k), snd k)) (df_keys df)"
  by (simp add: rekey_def df_keys_def comp_def row_node_def)

lemma init_graphframe_Inr:
  "init_graphframe g df exc inc = Inr gf \<Longrightarrow>
     gf = \<lparr>graph = g, dataframe = df, exc_metrics = exc, inc_metrics = inc\<rparr>"
  by (auto simp: init_graphframe_def split: if_splits)


text \<open>With no node retained, \<^verbatim>\<open>rewire\<close> walks the graph as the traversal does,
  and reaches the recursion limit exactly when the traversal does.\<close>

lemma rewire_children_walk:
  assumes single: "\<And>nd s out. nothing_linked s \<Longrightarrow>
      (case node_traverse d (rw_heap s) ord nd (visited s, out) of
         None \<Rightarrow> rewire d o2n nd None s = None
       | Some st' \<Rightarrow> (\<exists>t s'. rewire d o2n nd None s = Some (t, s') \<and> visited s' = fst st'))"
    and keep: "\<And>nd s t s'. rewire d o2n nd None s = Some (t, s') \<Longrightarrow> nothing_linked s
      \<Longrightarrow> t = [] \<and> nothing_linked s' \<and> rw_heap s' = rw_heap s"
  shows "nothing_linked s \<Longrightarrow>
      (case nodes_traverse d (rw_heap s) ord cs (visited s, out) of
         None \<Rightarrow> rewire_children d o2n cs None s = None
       | Some st' \<Rightarrow> (\<exists>t s'. rewire_children d o2n cs None s = Some (t, s') \<and> visited s' = fst st'))"
proof (induction cs arbitrary: s out)
  case Nil
  then show ?case by simp
next
  case (Cons c cs)
  show ?case
  proof (cases "node_traverse d (rw_heap s) ord c (visited s, out)")
    case None
    with single [OF Cons.prems, of c out] show ?thesis by simp
  next
    case (Some st1)
    with single [OF Cons.prems, of c out] obtain t1 s1 where
      r: "rewire d o2n c None s = Some (t1, s1)" and v: "visited s1 = fst st1"
      by auto
    from keep [OF r Cons.prems] have nl: "nothing_linked s1" and hp: "rw_heap s1 = rw_heap s"
      by simp_all
    from v have st1: "st1 = (visited s1, snd st1)" by (cases st1) simp
    from Cons.IH [OF nl, of "snd st1"] hp st1
    have ih: "case nodes_traverse d (rw_heap s) ord cs st1 of
         None \<Rightarrow> rewire_children d o2n cs None s1 = None
       | Some st' \<Rightarrow> (\<exists>t s'. rewire_children d o2n cs None s1 = Some (t, s') \<and> visited s' = fst st')"
      by simp
    show ?thesis
    proof (cases "nodes_traverse d (rw_heap s) ord cs st1")
      case None
      with ih Some r show ?thesis by simp
    next
      case (Some st2)
      with ih obtain t2 s2 where "rewire_children d o2n cs None s1 = Some (t2, s2)"
        "visited s2 = fst st2" by auto
      with \<open>node_traverse d (rw_heap s) ord c (visited s, out) = Some st1\<close> Some r
      show ?thesis by simp
    qed
  qed
qed

lemma rewire_walk:
  assumes none: "\<And>n. o2n n = None"
  shows "nothing_linked s \<Longrightarrow>
      (case node_traverse d (rw_heap s) ord nd (visited s, out) of
         None \<Rightarrow> rewire d o2n nd None s = None
       | Some st' \<Rightarrow> (\<exists>t s'. rewire d o2n nd None s = Some (t, s') \<and> visited s' = fst st'))"
proof (induction d arbitrary: nd s out)
  case 0
  then show ?case by simp
next
  case (Suc d)
  from Suc.prems have c: "connect None (connections s nd) (rw_heap s, new_roots s)
      = (rw_heap s, new_roots s)"
    by (simp add: nothing_linked_def)
  show ?case
  proof (cases "nd \<in> set (visited s)")
    case True
    then show ?thesis by (simp add: rewire_Suc_unfold c none Let_def)
  next
    case False
    define s1 where "s1 = s\<lparr>visited := nd # visited s\<rparr>"
    define out1 where "out1 = (if ord = Pre then out @ [nd] else out)"
    have nl: "nothing_linked s1" using Suc.prems by (simp add: s1_def nothing_linked_def)
    have f: "rw_heap s1 = rw_heap s" "visited s1 = nd # visited s" by (simp_all add: s1_def)
    from rewire_children_walk [where d = d and ord = ord and ?o2n = o2n and s = s1
          and cs = "kids (rw_heap s) nd" and out = out1,
        OF Suc.IH rewire_nothing [of o2n, OF none] nl] f
    have ch: "case nodes_traverse d (rw_heap s) ord (kids (rw_heap s) nd) (nd # visited s, out1) of
         None \<Rightarrow> rewire_children d o2n (kids (rw_heap s) nd) None s1 = None
       | Some st' \<Rightarrow> (\<exists>t s'. rewire_children d o2n (kids (rw_heap s) nd) None s1 = Some (t, s')
            \<and> visited s' = fst st')"
      by simp
    have rw: "rewire (Suc d) o2n nd None s =
        (case rewire_children d o2n (kids (rw_heap s) nd) None s1 of
           None \<Rightarrow> None
         | Some (tr, s2) \<Rightarrow> Some (set_union (connections s2 nd) tr,
                          s2\<lparr>connections := (connections s2)(nd := set_union (connections s2 nd) tr)\<rparr>))"
      using False by (simp only: rewire_Suc_unfold c none s1_def) (simp split: option.splits)
    have nt: "node_traverse (Suc d) (rw_heap s) ord nd (visited s, out) =
        (case nodes_traverse d (rw_heap s) ord (kids (rw_heap s) nd) (nd # visited s, out1) of
           None \<Rightarrow> None
         | Some (vis', out') \<Rightarrow> Some (vis', if ord = Post then out' @ [nd] else out'))"
      using False by (simp add: out1_def)
    show ?thesis
    proof (cases "nodes_traverse d (rw_heap s) ord (kids (rw_heap s) nd) (nd # visited s, out1)")
      case None
      with ch have "rewire_children d o2n (kids (rw_heap s) nd) None s1 = None" by simp
      with None show ?thesis unfolding rw nt by simp
    next
      case (Some st')
      with ch obtain t s' where "rewire_children d o2n (kids (rw_heap s) nd) None s1 = Some (t, s')"
        "visited s' = fst st'" by auto
      with Some show ?thesis unfolding rw nt by (cases st') simp
    qed
  qed
qed

lemma squash_start_empty:
  assumes "rows (dataframe self) = []"
  shows "nothing_linked (squash_start h self)" "rw_heap (squash_start h self) = h"
    "visited (squash_start h self) = []"
    "old_to_new h (remdups (df_nodes (dataframe self))) n = None"
  using assms by (simp_all add: squash_start_def nothing_linked_def df_nodes_def old_to_new_def)

lemma rewire_children_empty_table:
  assumes empty: "rows (dataframe self) = []"
  shows "case traverse lim h Pre (graph self) of
           Inl e \<Rightarrow> rewire_children lim (old_to_new h (remdups (df_nodes (dataframe self))))
                      (roots (graph self)) None (squash_start h self) = None
         | Inr ns \<Rightarrow> (\<exists>s. rewire_children lim (old_to_new h (remdups (df_nodes (dataframe self))))
                      (roots (graph self)) None (squash_start h self) = Some ([], s)
                      \<and> new_roots s = [] \<and> rw_heap s = h)"
proof -
  define o2n where "o2n = old_to_new h (remdups (df_nodes (dataframe self)))"
  have none: "\<And>n. o2n n = None" unfolding o2n_def by (rule squash_start_empty(4) [OF empty])
  note st = squash_start_empty(1-3) [OF empty, of h]
  from rewire_children_walk [where d = lim and ord = Pre and ?o2n = o2n
        and s = "squash_start h self" and cs = "roots (graph self)" and out = "[]",
      OF rewire_walk [of o2n, OF none] rewire_nothing [of o2n, OF none] st(1)] st(2,3)
  have w: "case nodes_traverse lim h Pre (roots (graph self)) ([], []) of
         None \<Rightarrow> rewire_children lim o2n (roots (graph self)) None (squash_start h self) = None
       | Some st' \<Rightarrow> (\<exists>t s'. rewire_children lim o2n (roots (graph self)) None (squash_start h self)
             = Some (t, s') \<and> visited s' = fst st')"
    by simp
  show ?thesis
  proof (cases "nodes_traverse lim h Pre (roots (graph self)) ([], [])")
    case None
    with w show ?thesis by (simp add: traverse_def o2n_def)
  next
    case (Some st')
    with w obtain t s' where r: "rewire_children lim o2n (roots (graph self)) None (squash_start h self)
             = Some (t, s')" by auto
    from rewire_children_nothing [OF rewire_nothing [of o2n, OF none] r st(1)] st(2)
    have "t = []" "new_roots s' = []" "rw_heap s' = h" by (simp_all add: nothing_linked_def)
    with r Some show ?thesis by (cases st') (simp add: traverse_def o2n_def)
  qed
qed

lemma squash_empty_Inr:
  assumes empty: "rows (dataframe self) = []"
    and run: "squash nz lim h self = (Inr gf', h')"
  shows "rows (dataframe gf') = []
       \<and> (\<exists>m. nz lim (h\<lparr>next_id := Suc (next_id h)\<rparr>) \<lparr>gid = next_id h, roots = []\<rparr>
                      = (Inr m, h', graph gf'))"
proof -
  have ret: "remdups (df_nodes (dataframe self)) = []" using empty by (simp add: df_nodes_def)
  have o2n: "old_to_new h (remdups (df_nodes (dataframe self))) n = None" for n
    by (simp add: ret old_to_new_def)
  have start: "nothing_linked (squash_start h self)" "rw_heap (squash_start h self) = h"
    by (simp_all add: squash_start_def nothing_linked_def ret old_to_new_def)
  from run obtain t s h4 merges g' new_gf where
    rw: "rewire_children lim (old_to_new h (remdups (df_nodes (dataframe self))))
        (roots (graph self)) None (squash_start h self) = Some (t, s)"
    and en: "enumerate_traverse lim ((rw_heap s)\<lparr>next_id := Suc (next_id (rw_heap s))\<rparr>)
        \<lparr>gid = next_id (rw_heap s), roots = new_roots s\<rparr> = Inr h4"
    and nz: "nz lim h4 \<lparr>gid = next_id (rw_heap s), roots = new_roots s\<rparr> = (Inr merges, h', g')"
    and ini: "init_graphframe g'
        (groupby_agg (exc_metrics self @ inc_metrics self)
           (rekey (\<lambda>n. case merges n of None \<Rightarrow> n | Some m \<Rightarrow> m)
              (rekey (\<lambda>n. case old_to_new h (remdups (df_nodes (dataframe self))) n of
                             None \<Rightarrow> n | Some m \<Rightarrow> m) (dataframe self))))
        (exc_metrics self) (inc_metrics self) = Inr new_gf"
    and upd: "update_inclusive_columns lim h' new_gf = (None, gf')"
    by (rule squash_Inr_elim)
  have "t = [] \<and> nothing_linked s \<and> rw_heap s = rw_heap (squash_start h self)"
    by (rule rewire_children_nothing [OF rewire_nothing [of "old_to_new h (remdups (df_nodes (dataframe self)))"] rw start(1)])
       (rule o2n)
  then have s: "new_roots s = []" "rw_heap s = h" using start(2) by (simp_all add: nothing_linked_def)
  from en s have h4: "h4 = h\<lparr>next_id := Suc (next_id h)\<rparr>"
    by (simp add: enumerate_traverse_def traverse_def)
  have k0: "df_keys (dataframe self) = []" using empty by (simp add: df_keys_def)
  have "df_keys (dataframe new_gf) = []"
    using init_graphframe_Inr [OF ini] by (simp add: rekey_keys k0)
  with update_inclusive_columns_keys [OF upd] init_graphframe_Inr [OF ini]
  have "df_keys (dataframe gf') = []" "graph gf' = g'" by simp_all
  with nz s h4 show ?thesis by (auto dest: rows_of_keys_empty)
qed

lemma init_out_runs:
  "\<forall>p \<in> set ps. fst p \<in> set (columns df) \<Longrightarrow> \<exists>df'. init_out df ps = (None, df')"
proof (induction ps arbitrary: df)
  case Nil
  then show ?case by simp
next
  case (Cons p ps)
  obtain col out where p: "p = (col, out)" by (cases p)
  with Cons.prems have c: "col \<in> set (columns df)" by simp
  define df1 where "df1 = df\<lparr>columns := (if out \<in> set (columns df) then columns df else columns df @ [out]),
                   rows := map (\<lambda>(k, r). (k, AList.update out (cell_of r col) r)) (rows df)\<rparr>"
  from c have d: "copy_column df col out = Inr df1"
    by (simp add: copy_column_def df1_def)
  have cols: "set (columns df) \<subseteq> set (columns df1)"
    by (auto simp: df1_def)
  from Cons.prems cols have "\<forall>p \<in> set ps. fst p \<in> set (columns df1)" by auto
  from Cons.IH [OF this] p d show ?case by simp
qed

lemma update_inclusive_columns_no_roots:
  assumes r: "roots (graph gf) = []"
    and cols: "set (exc_metrics gf) \<subseteq> set (columns (dataframe gf))"
  shows "\<exists>gf'. update_inclusive_columns lim h gf = (None, gf')"
proof -
  define incs where "incs = map (\<lambda>s. s @ '' (inc)'') (exc_metrics gf)"
  have "\<forall>p \<in> set (zip (exc_metrics gf) incs). fst p \<in> set (columns (dataframe gf))"
    using cols by (auto dest: set_zip_leftD)
  from init_out_runs [OF this] obtain df' where
    i: "init_out (dataframe gf) (zip (exc_metrics gf) incs) = (None, df')" by blast
  have l: "length (exc_metrics gf) = length incs" by (simp add: incs_def)
  have t: "traverse lim h ord (graph gf) = Inr []" for ord
    by (simp add: traverse_def r)
  have it: "is_tree lim h (graph gf) = Inr True"
    by (simp add: is_tree_def t)
  show ?thesis
    unfolding update_inclusive_columns_def Let_def subgraph_sum_def
    by (simp add: it subtree_sum_def init_sum_columns_def incs_def [symmetric] i l t)
qed

lemma squash_empty_runs:
  assumes empty: "rows (dataframe self) = []"
    and tr: "traverse lim h Pre (graph self) = Inr ns"
    and ix: "''node'' \<in> set (index_names (dataframe self))"
    and cols: "set (exc_metrics self) \<subseteq> set (columns (dataframe self))"
    and nz: "nz lim (h\<lparr>next_id := Suc (next_id h)\<rparr>) \<lparr>gid = next_id h, roots = []\<rparr> = (Inr m, h5, g')"
    and g': "roots g' = []"
  shows "\<exists>gf'. squash nz lim h self = (Inr gf', h5)"
proof -
  from rewire_children_empty_table [OF empty, of lim h] tr obtain s where
    rw: "rewire_children lim (old_to_new h (remdups (df_nodes (dataframe self))))
                      (roots (graph self)) None (squash_start h self) = Some ([], s)"
    and s: "new_roots s = []" "rw_heap s = h"
    by auto
  have en: "enumerate_traverse lim (h\<lparr>next_id := Suc (next_id h)\<rparr>) \<lparr>gid = next_id h, roots = []\<rparr>
      = Inr (h\<lparr>next_id := Suc (next_id h)\<rparr>)"
    by (simp add: enumerate_traverse_def traverse_def)
  define agg where "agg = groupby_agg (exc_metrics self @ inc_metrics self)
           (rekey (\<lambda>n. case m n of None \<Rightarrow> n | Some k \<Rightarrow> k)
              (rekey (\<lambda>n. case old_to_new h (remdups (df_nodes (dataframe self))) n of
                             None \<Rightarrow> n | Some k \<Rightarrow> k) (dataframe self)))"
  have a: "index_names agg = index_names (dataframe self)" "columns agg = columns (dataframe self)"
    by (simp_all add: agg_def groupby_agg_def rekey_def)
  define new_gf where "new_gf = \<lparr>graph = g', dataframe = agg, exc_metrics = exc_metrics self,
      inc_metrics = inc_metrics self\<rparr>"
  have ini: "init_graphframe g' agg (exc_metrics self) (inc_metrics self) = Inr new_gf"
    using ix by (simp add: init_graphframe_def a new_gf_def)
  from update_inclusive_columns_no_roots [of new_gf lim h5] g' cols obtain gf' where
    upd: "update_inclusive_columns lim h5 new_gf = (None, gf')"
    by (auto simp: new_gf_def a)
  have "squash nz lim h self = (Inr gf', h5)"
    unfolding squash_def Let_def
    by (simp add: rw s en nz agg_def [symmetric] ini upd)
  then show ?thesis by blast
qed

lemma squash_empty_too_deep:
  assumes empty: "rows (dataframe self) = []"
    and tr: "traverse lim h Pre (graph self) = Inl e"
  shows "squash nz lim h self = (Inl RecursionError, h)"
proof -
  from rewire_children_empty_table [OF empty, of lim h] tr have
    rw: "rewire_children lim (old_to_new h (remdups (df_nodes (dataframe self))))
                      (roots (graph self)) None (squash_start h self) = None"
    by simp
  have "copy_nodes h (remdups (df_nodes (dataframe self))) = h"
    using empty by (simp add: df_nodes_def)
  then show ?thesis
    unfolding squash_def Let_def rw by simp
qed

lemma filter_gf_empty_selection:
  "filtered_rows self fo = Inr [] \<Longrightarrow> filter_gf nz lim h self fo sq = (Inl EmptyFilter, self, h)"
  by (simp add: filter_gf_def)

text \<open>
  C1 (as the code has it). \<^verbatim>\<open>squash\<close> has no check for an empty table and there is
  no \<^verbatim>\<open>EmptySquash\<close>. On a GraphFrame whose dataframe has no rows: whenever
  \<^verbatim>\<open>squash\<close> returns, the new table has no rows and the new graph is what
  \<^verbatim>\<open>normalize\<close> makes of the graph with no roots; it raises \<^verbatim>\<open>RecursionError\<close>
  when the graph is too deep to be traversed; and it does return when the graph can be
  traversed, the table has the index \<^verbatim>\<open>node\<close> and the columns of the exclusive
  metrics, and \<^verbatim>\<open>normalize\<close> returns a graph with no roots for the graph with no
  roots. The empty selection is refused one step earlier, for every GraphFrame:
  \<^verbatim>\<open>filter\<close> raises \<^verbatim>\<open>EmptyFilter\<close> whenever the filter keeps no row, with or
  without \<^verbatim>\<open>squash=True\<close>, and changes nothing.
\<close>

theorem squash_empty_table:
  "(rows (dataframe self) = [] \<longrightarrow>
       (\<forall>gf' h'. squash nz lim h self = (Inr gf', h') \<longrightarrow>
            rows (dataframe gf') = []
            \<and> (\<exists>m. nz lim (h\<lparr>next_id := Suc (next_id h)\<rparr>) \<lparr>gid = next_id h, roots = []\<rparr>
                      = (Inr m, h', graph gf')))
     \<and> (\<forall>e. traverse lim h Pre (graph self) = Inl e \<longrightarrow>
            squash nz lim h self = (Inl RecursionError, h))
     \<and> (\<forall>ns m h5 g'.
            traverse lim h Pre (graph self) = Inr ns
            \<and> ''node'' \<in> set (index_names (dataframe self))
            \<and> set (exc_metrics self) \<subseteq> set (columns (dataframe self))
            \<and> nz lim (h\<lparr>next_id := Suc (next_id h)\<rparr>) \<lparr>gid = next_id h, roots = []\<rparr>
                 = (Inr m, h5, g')
            \<and> roots g' = []
          \<longrightarrow> (\<exists>gf'. squash nz lim h self = (Inr gf', h5) \<and> graph gf' = g'
                  \<and> rows (dataframe gf') = [])))
   \<and> (\<forall>fo sq. filtered_rows self fo = Inr [] \<longrightarrow>
          filter_gf nz lim h self fo sq = (Inl EmptyFilter, self, h))"
proof (intro conjI impI allI)
  fix gf' h'
  assume "rows (dataframe self) = []" "squash nz lim h self = (Inr gf', h')"
  then have a: "rows (dataframe gf') = []
       \<and> (\<exists>m. nz lim (h\<lparr>next_id := Suc (next_id h)\<rparr>) \<lparr>gid = next_id h, roots = []\<rparr>
                      = (Inr m, h', graph gf'))"
    by (rule squash_empty_Inr)
  from a show "rows (dataframe gf') = []" by simp
  from a show "\<exists>m. nz lim (h\<lparr>next_id := Suc (next_id h)\<rparr>) \<lparr>gid = next_id h, roots = []\<rparr>
                      = (Inr m, h', graph gf')" by simp
next
  fix e
  assume "rows (dataframe self) = []" "traverse lim h Pre (graph self) = Inl e"
  then show "squash nz lim h self = (Inl RecursionError, h)"
    by (rule squash_empty_too_deep)
next
  fix ns m h5 g'
  assume empty: "rows (dataframe self) = []"
    and c: "traverse lim h Pre (graph self) = Inr ns
            \<and> ''node'' \<in> set (index_names (dataframe self))
            \<and> set (exc_metrics self) \<subseteq> set (columns (dataframe self))
            \<and> nz lim (h\<lparr>next_id := Suc (next_id h)\<rparr>) \<lparr>gid = next_id h, roots = []\<rparr>
                 = (Inr m, h5, g')
            \<and> roots g' = []"
  from c have tr: "traverse lim h Pre (graph self) = Inr ns"
    and ix: "''node'' \<in> set (index_names (dataframe self))"
    and cols: "set (exc_metrics self) \<subseteq> set (columns (dataframe self))"
    and nz: "nz lim (h\<lparr>next_id := Suc (next_id h)\<rparr>) \<lparr>gid = next_id h, roots = []\<rparr>
                 = (Inr m, h5, g')"
    and g': "roots g' = []"
    by simp_all
  from squash_empty_runs [where nz = nz and h = h and m = m and g' = g',
      OF empty tr ix cols nz g'] obtain gf' where
    run: "squash nz lim h self = (Inr gf', h5)" by blast
  from squash_empty_Inr [OF empty run] nz
  have "rows (dataframe gf') = []" "graph gf' = g'" by auto
  with run show "\<exists>gf'. squash nz lim h self = (Inr gf', h5) \<and> graph gf' = g'
                  \<and> rows (dataframe gf') = []" by blast
next
  fix fo sq
  assume "filtered_rows self fo = Inr []"
  then show "filter_gf nz lim h self fo sq = (Inl EmptyFilter, self, h)"
    by (rule filter_gf_empty_selection)
qed

theorem squash_empty_table_witness:
  "rows (dataframe empty_gf) = []
   \<and> traverse 1000 chain_heap Pre (graph empty_gf) = Inr [0, 1, 2, 3]
   \<and> (\<exists>gf'. squash normalize 1000 chain_heap empty_gf = (Inr gf', chain_heap\<lparr>next_id := 6\<rparr>)
          \<and> graph gf' = \<lparr>gid = 5, roots = []\<rparr> \<and> rows (dataframe gf') = [])
   \<and> traverse 2 chain_heap Pre (graph empty_gf) = Inl RecursionError
   \<and> squash normalize 2 chain_heap empty_gf = (Inl RecursionError, chain_heap)
   \<and> filtered_rows chain_gf (Callable (\<lambda>k r. False)) = Inr []
   \<and> filter_gf normalize 1000 chain_heap chain_gf (Callable (\<lambda>k r. False)) True
       = (Inl EmptyFilter, chain_gf, chain_heap)"
proof -
  have e: "rows (dataframe empty_gf) = []" by (simp add: empty_gf_def)
  have t1: "traverse 1000 chain_heap Pre (graph empty_gf) = Inr [0, 1, 2, 3]" by code_simp
  have t2: "traverse 2 chain_heap Pre (graph empty_gf) = Inl RecursionError" by code_simp
  have ix: "''node'' \<in> set (index_names (dataframe empty_gf))"
    by (simp add: empty_gf_def chain_gf_def)
  have cols: "set (exc_metrics empty_gf) \<subseteq> set (columns (dataframe empty_gf))"
    by (simp add: empty_gf_def chain_gf_def)
  have n: "next_id chain_heap = 5" by (simp add: chain_heap_def)
  have nz: "normalize 1000 (chain_heap\<lparr>next_id := Suc (next_id chain_heap)\<rparr>)
      \<lparr>gid = next_id chain_heap, roots = []\<rparr>
        = (Inr Map.empty, chain_heap\<lparr>next_id := 6\<rparr>, \<lparr>gid = 5, roots = []\<rparr>)"
    by (simp add: normalize_def traverse_def find_merges_def apply_merges_def dedup_def n)
  have f: "filtered_rows chain_gf (Callable (\<lambda>k r. False)) = Inr []"
    by (simp add: filtered_rows_def)
  note thm1 = squash_empty_table [of empty_gf normalize 1000 chain_heap]
  note thm2 = squash_empty_table [of empty_gf normalize 2 chain_heap]
  note thm3 = squash_empty_table [of chain_gf normalize 1000 chain_heap]
  from thm1 e t1 ix cols nz
  have 1: "\<exists>gf'. squash normalize 1000 chain_heap empty_gf = (Inr gf', chain_heap\<lparr>next_id := 6\<rparr>)
          \<and> graph gf' = \<lparr>gid = 5, roots = []\<rparr> \<and> rows (dataframe gf') = []"
    by simp
  from thm2 e t2
  have 2: "squash normalize 2 chain_heap empty_gf = (Inl RecursionError, chain_heap)"
    by simp
  from thm3 f
  have 3: "filter_gf normalize 1000 chain_heap chain_gf (Callable (\<lambda>k r. False)) True
       = (Inl EmptyFilter, chain_gf, chain_heap)"
    by simp
  from e t1 1 t2 2 f 3 show ?thesis by simp
qed

text \<open>
  C1 (as stated) fails: on the chain with no row left in the table, \<^verbatim>\<open>squash\<close> raises
  nothing and returns the GraphFrame with no roots and no rows.
\<close>

theorem squash_empty_returns:
  "fst (squash normalize 1000 chain_heap empty_gf)
       = Inr \<lparr>graph = \<lparr>gid = 5, roots = []\<rparr>,
              dataframe = \<lparr>index_names = [''node''], columns = [''time'', ''time (inc)''], rows = []\<rparr>,
              exc_metrics = [''time''], inc_metrics = [''time (inc)'']\<rparr>"
  by code_simp

subsection \<open>Reachability in a heap\<close>

lemma reach_root: "r \<in> set rs \<Longrightarrow> r \<in> reach h rs"
  by (auto simp: reach_def)

lemma reach_step: "a \<in> reach h rs \<Longrightarrow> b \<in> set (kids h a) \<Longrightarrow> b \<in> reach h rs"
  unfolding reach_def edges_def
  by (auto intro: rtrancl_into_rtrancl)

lemma reach_closed:
  assumes "set rs \<subseteq> S" and "\<forall>a \<in> S. set (kids h a) \<subseteq> S"
  shows "reach h rs \<subseteq> S"
proof
  fix x assume "x \<in> reach h rs"
  then obtain r where r: "r \<in> set rs" and p: "(r, x) \<in> (edges h)\<^sup>*"
    by (auto simp: reach_def)
  from p have "r \<in> S \<longrightarrow> x \<in> S"
  proof (induction rule: rtrancl_induct)
    case base
    then show ?case by simp
  next
    case (step y z)
    with assms(2) show ?case by (auto simp: edges_def)
  qed
  with r assms(1) show "x \<in> S" by auto
qed

lemma reach_mono:
  assumes "\<forall>a. set (kids h a) \<subseteq> set (kids h' a)" and "set rs \<subseteq> set rs'"
  shows "reach h rs \<subseteq> reach h' rs'"
proof -
  have "edges h \<subseteq> edges h'" using assms(1) by (auto simp: edges_def)
  then have "(edges h)\<^sup>* \<subseteq> (edges h')\<^sup>*" by (rule rtrancl_mono)
  with assms(2) show ?thesis unfolding reach_def by blast
qed

lemma reach_cong:
  assumes "\<forall>a. kids h a = kids h' a"
  shows "reach h rs = reach h' rs"
proof -
  have "edges h = edges h'" using assms by (simp add: edges_def)
  then show ?thesis by (simp add: reach_def)
qed

lemma rw_grows_refl: "rw_grows h s s"
  by (simp add: rw_grows_def)

lemma rw_grows_trans: "rw_grows h s s1 \<Longrightarrow> rw_grows h s1 s2 \<Longrightarrow> rw_grows h s s2"
  unfolding rw_grows_def by (intro conjI; blast)

lemma rw_grows_reach:
  "rw_grows h s s' \<Longrightarrow> reach (rw_heap s) (new_roots s) \<subseteq> reach (rw_heap s') (new_roots s')"
  unfolding rw_grows_def by (intro reach_mono) auto

lemma parent_ok_grows: "parent_ok o2n np s \<Longrightarrow> rw_grows h s s' \<Longrightarrow> parent_ok o2n np s'"
  using rw_grows_reach unfolding parent_ok_def by blast

subsection \<open>Heap updates\<close>

lemma kids_add_child:
  "kids (add_child h p n) a = (if a = p \<and> node_at h p \<noteq> None then kids h p @ [n] else kids h a)"
  by (auto simp: add_child_def kids_def split: option.splits)

lemma kids_add_parent [simp]: "kids (add_parent h n p) a = kids h a"
  by (auto simp: add_parent_def kids_def split: option.splits)

lemma node_at_add_child:
  "node_at (add_child h p n) a = (if a = p then map_option (\<lambda>nd. nd\<lparr>children := children nd @ [n]\<rparr>) (node_at h p) else node_at h a)"
  by (auto simp: add_child_def split: option.splits)

lemma node_at_add_parent:
  "node_at (add_parent h n p) a = (if a = n then map_option (\<lambda>nd. nd\<lparr>parents := parents nd @ [p]\<rparr>) (node_at h n) else node_at h a)"
  by (auto simp: add_parent_def split: option.splits)

lemma next_id_add [simp]: "next_id (add_child h p n) = next_id h" "next_id (add_parent h n p) = next_id h"
  by (auto simp: add_child_def add_parent_def split: option.splits)

text \<open>What \<open>connect\<close> does to the heap and the roots.\<close>

lemma connect_None: "connect None ns (h, nr) = (h', nr') \<Longrightarrow>
    h' = h \<and> set nr' = set nr \<union> set ns"
  by (induction ns arbitrary: nr) (auto split: if_splits)

lemma connect_Some:
  assumes "connect (Some p) ns (h, nr) = (h', nr')" and "node_at h p \<noteq> None"
  shows "nr' = nr
       \<and> (\<forall>a. set (kids h' a) = (if a = p then set (kids h p) \<union> set ns else set (kids h a)))
       \<and> (\<forall>a. (node_at h' a = None) = (node_at h a = None))
       \<and> (\<forall>a. a \<noteq> p \<longrightarrow> a \<notin> set ns \<longrightarrow> node_at h' a = node_at h a)"
  using assms
proof (induction ns arbitrary: h)
  case Nil
  then show ?case by simp
next
  case (Cons n ns)
  define h1 where "h1 = (if n \<notin> set (kids h p) then add_parent (add_child h p n) n p else h)"
  from Cons.prems(1) have c: "connect (Some p) ns (h1, nr) = (h', nr')"
    by (simp add: h1_def split: if_splits)
  have ex: "\<forall>a. (node_at h1 a = None) = (node_at h a = None)"
    by (auto simp: h1_def node_at_add_child node_at_add_parent)
  with Cons.prems(2) have p1: "node_at h1 p \<noteq> None" by simp
  have k1: "\<forall>a. set (kids h1 a) = (if a = p then set (kids h p) \<union> {n} else set (kids h a))"
    using Cons.prems(2) by (auto simp: h1_def kids_add_child)
  have o1: "\<forall>a. a \<noteq> p \<longrightarrow> a \<noteq> n \<longrightarrow> node_at h1 a = node_at h a"
    by (auto simp: h1_def node_at_add_child node_at_add_parent)
  from Cons.IH [OF c p1] ex k1 o1 show ?case by auto
qed

subsection \<open>The invariant of rewire\<close>

lemma set_set_union [simp]: "set (set_union xs ys) = set xs \<union> set ys"
  by (auto simp: set_union_def)

lemma connect_step:
  assumes inv: "rw_inv h o2n s" and pok: "parent_ok o2n np s"
    and c: "connect np (connections s nd) (rw_heap s, new_roots s) = (h1, nr1)"
  shows "rw_inv h o2n (s\<lparr>rw_heap := h1, new_roots := nr1\<rparr>)
       \<and> rw_grows h s (s\<lparr>rw_heap := h1, new_roots := nr1\<rparr>)
       \<and> set (connections s nd) \<subseteq> reach h1 nr1"
proof (cases np)
  case None
  with c have h1: "h1 = rw_heap s" and nr1: "set nr1 = set (new_roots s) \<union> set (connections s nd)"
    using connect_None by blast+
  have g: "rw_grows h s (s\<lparr>rw_heap := h1, new_roots := nr1\<rparr>)"
    by (auto simp: rw_grows_def h1 nr1)
  have sub: "reach (rw_heap s) (new_roots s) \<subseteq> reach h1 nr1"
    using rw_grows_reach [OF g] by simp
  have "rw_inv h o2n (s\<lparr>rw_heap := h1, new_roots := nr1\<rparr>)"
    using inv sub unfolding rw_inv_def by (simp add: h1 nr1) blast
  moreover have "set (connections s nd) \<subseteq> reach h1 nr1"
    using nr1 by (auto intro: reach_root)
  ultimately show ?thesis using g by simp
next
  case (Some p)
  with pok have p: "p \<in> ran o2n" "p \<in> reach (rw_heap s) (new_roots s)"
    by (simp_all add: parent_ok_def)
  from inv p(1) have pex: "node_at (rw_heap s) p \<noteq> None" and pN: "next_id h \<le> p"
    by (auto simp: rw_inv_def)
  from inv have ns: "set (connections s nd) \<subseteq> ran o2n" by (simp add: rw_inv_def)
  from inv have ranN: "\<forall>m \<in> ran o2n. next_id h \<le> m" by (auto simp: rw_inv_def)
  from connect_Some [OF c [unfolded Some] pex]
  have nr1: "nr1 = new_roots s"
    and k: "\<forall>a. set (kids h1 a) = (if a = p then set (kids (rw_heap s) p) \<union> set (connections s nd)
                                    else set (kids (rw_heap s) a))"
    and ex: "\<forall>a. (node_at h1 a = None) = (node_at (rw_heap s) a = None)"
    and oth: "\<forall>a. a \<noteq> p \<longrightarrow> a \<notin> set (connections s nd) \<longrightarrow> node_at h1 a = node_at (rw_heap s) a"
    by auto
  have g: "rw_grows h s (s\<lparr>rw_heap := h1, new_roots := nr1\<rparr>)"
    using k by (auto simp: rw_grows_def nr1)
  have sub: "reach (rw_heap s) (new_roots s) \<subseteq> reach h1 nr1"
    using rw_grows_reach [OF g] by simp
  have old: "\<forall>a < next_id h. node_at h1 a = node_at h a"
  proof (intro allI impI)
    fix a assume a: "a < next_id h"
    with pN have "a \<noteq> p" by auto
    moreover from a ns ranN have "a \<notin> set (connections s nd)" by fastforce
    ultimately have "node_at h1 a = node_at (rw_heap s) a" using oth by simp
    with inv a show "node_at h1 a = node_at h a" by (simp add: rw_inv_def)
  qed
  have new: "\<forall>m \<in> ran o2n. next_id h \<le> m \<and> node_at h1 m \<noteq> None"
    using inv ex by (auto simp: rw_inv_def)
  have kr: "\<forall>a. next_id h \<le> a \<longrightarrow> set (kids h1 a) \<subseteq> ran o2n"
    using inv k ns unfolding rw_inv_def by auto
  have vis: "\<forall>v \<in> set (visited s). \<forall>m. o2n v = Some m \<longrightarrow> m \<in> reach h1 nr1"
    using inv sub unfolding rw_inv_def by blast
  have "rw_inv h o2n (s\<lparr>rw_heap := h1, new_roots := nr1\<rparr>)"
    using inv old new kr vis unfolding rw_inv_def by (simp add: nr1)
  moreover have "set (connections s nd) \<subseteq> reach h1 nr1"
  proof
    fix n assume "n \<in> set (connections s nd)"
    with k have "n \<in> set (kids h1 p)" by simp
    moreover from p(2) sub have "p \<in> reach h1 nr1" by blast
    ultimately show "n \<in> reach h1 nr1" by (rule reach_step [rotated])
  qed
  ultimately show ?thesis using g by simp
qed

lemma rewire_children_ok:
  assumes single: "\<And>nd np s t s'. rewire d o2n nd np s = Some (t, s') \<Longrightarrow> rw_inv h o2n s \<Longrightarrow>
      parent_ok o2n np s \<Longrightarrow> nd < next_id h \<Longrightarrow>
      rw_inv h o2n s' \<and> rw_grows h s s' \<and> nd \<in> set (visited s') \<and> set t \<subseteq> ran o2n"
  shows "rewire_children d o2n cs np s = Some (t, s') \<Longrightarrow> rw_inv h o2n s \<Longrightarrow>
      parent_ok o2n np s \<Longrightarrow> \<forall>c \<in> set cs. c < next_id h \<Longrightarrow>
      rw_inv h o2n s' \<and> rw_grows h s s' \<and> set cs \<subseteq> set (visited s') \<and> set t \<subseteq> ran o2n"
proof (induction cs arbitrary: s t s')
  case Nil
  then show ?case by (simp add: rw_grows_refl)
next
  case (Cons c cs)
  from Cons.prems(1) obtain t1 s1 t2 where
    a: "rewire d o2n c np s = Some (t1, s1)"
    and b: "rewire_children d o2n cs np s1 = Some (t2, s')" and t: "t = set_union t1 t2"
    by (rule rewire_children_Cons_elim)
  from single [OF a Cons.prems(2,3)] Cons.prems(4)
  have 1: "rw_inv h o2n s1" "rw_grows h s s1" "c \<in> set (visited s1)" "set t1 \<subseteq> ran o2n"
    by auto
  have pok: "parent_ok o2n np s1" using Cons.prems(3) 1(2) by (rule parent_ok_grows)
  from Cons.IH [OF b 1(1) pok] Cons.prems(4)
  have 2: "rw_inv h o2n s'" "rw_grows h s1 s'" "set cs \<subseteq> set (visited s')" "set t2 \<subseteq> ran o2n"
    by auto
  have "c \<in> set (visited s')" using 1(3) 2(2) by (auto simp: rw_grows_def)
  with 1 2 t show ?case by (auto intro: rw_grows_trans)
qed

lemma rw_inv_visit:
  assumes inv: "rw_inv h o2n s" and linked: "\<forall>m. o2n nd = Some m \<longrightarrow> m \<in> reach (rw_heap s) (new_roots s)"
  shows "rw_inv h o2n (s\<lparr>visited := nd # visited s\<rparr>)"
  using assms unfolding rw_inv_def by auto

lemma rw_inv_connections:
  assumes inv: "rw_inv h o2n s" and none: "o2n nd = None" and sub: "set c \<subseteq> ran o2n"
  shows "rw_inv h o2n (s\<lparr>connections := (connections s)(nd := c)\<rparr>)"
  using assms unfolding rw_inv_def by auto

lemma rw_inv_old_kids: "rw_inv h o2n s \<Longrightarrow> a < next_id h \<Longrightarrow> kids (rw_heap s) a = kids h a"
  by (simp add: rw_inv_def kids_def)

lemma rewire_ok:
  assumes closed: "\<forall>a. \<forall>b \<in> set (kids h a). b < next_id h"
  shows "rewire d o2n nd np s = Some (t, s') \<Longrightarrow> rw_inv h o2n s \<Longrightarrow>
      parent_ok o2n np s \<Longrightarrow> nd < next_id h \<Longrightarrow>
      rw_inv h o2n s' \<and> rw_grows h s s' \<and> nd \<in> set (visited s') \<and> set t \<subseteq> ran o2n"
proof (induction d arbitrary: nd np s t s')
  case 0
  then show ?case by simp
next
  case (Suc d)
  note inv = Suc.prems(2) and pok = Suc.prems(3) and ndN = Suc.prems(4)
  from Suc.prems(1) obtain h1 nr1 tr s2 where
    c: "connect np (connections s nd) (rw_heap s, new_roots s) = (h1, nr1)"
    and v: "nd \<in> set (visited s) \<longrightarrow> tr = [] \<and> s2 = s\<lparr>rw_heap := h1, new_roots := nr1\<rparr>"
    and nv: "nd \<notin> set (visited s) \<longrightarrow>
       rewire_children d o2n (kids h1 nd) (case o2n nd of Some m \<Rightarrow> Some m | None \<Rightarrow> np)
         (s\<lparr>rw_heap := h1, new_roots := nr1, visited := nd # visited s\<rparr>) = Some (tr, s2)"
    and fs: "\<forall>m. o2n nd = Some m \<longrightarrow> t = [m] \<and> s' = s2"
    and fin: "o2n nd = None \<longrightarrow> t = set_union (connections s2 nd) tr
        \<and> s' = s2\<lparr>connections := (connections s2)(nd := set_union (connections s2 nd) tr)\<rparr>"
    by (rule rewire_Suc_elim)
  define s1 where "s1 = s\<lparr>rw_heap := h1, new_roots := nr1\<rparr>"
  from connect_step [OF inv pok c]
  have inv1: "rw_inv h o2n s1" and g1: "rw_grows h s s1"
    and linked: "set (connections s nd) \<subseteq> reach h1 nr1"
    by (simp_all add: s1_def)
  have mid: "rw_inv h o2n s2 \<and> rw_grows h s s2 \<and> nd \<in> set (visited s2) \<and> set tr \<subseteq> ran o2n"
  proof (cases "nd \<in> set (visited s)")
    case True
    with v have "tr = []" "s2 = s1" by (simp_all add: s1_def)
    with inv1 g1 True show ?thesis by (auto simp: rw_grows_def)
  next
    case False
    define sv where "sv = s1\<lparr>visited := nd # visited s1\<rparr>"
    define np' where "np' = (case o2n nd of Some m \<Rightarrow> Some m | None \<Rightarrow> np)"
    from nv False have r: "rewire_children d o2n (kids h1 nd) np' sv = Some (tr, s2)"
      by (simp add: sv_def s1_def np'_def)
    have l: "\<forall>m. o2n nd = Some m \<longrightarrow> m \<in> reach (rw_heap s1) (new_roots s1)"
    proof (intro allI impI)
      fix m assume m: "o2n nd = Some m"
      with inv have "connections s nd = [m]" by (simp add: rw_inv_def)
      with linked show "m \<in> reach (rw_heap s1) (new_roots s1)" by (simp add: s1_def)
    qed
    have invv: "rw_inv h o2n sv" unfolding sv_def by (rule rw_inv_visit [OF inv1 l])
    have pok1: "parent_ok o2n np s1" using pok g1 by (rule parent_ok_grows)
    have pokv: "parent_ok o2n np' sv"
    proof (cases "o2n nd")
      case None
      with pok1 show ?thesis by (simp add: np'_def parent_ok_def sv_def)
    next
      case (Some m)
      with l have "m \<in> reach (rw_heap s1) (new_roots s1)" by simp
      moreover from Some have "m \<in> ran o2n" by (auto simp: ran_def)
      ultimately show ?thesis using Some by (simp add: np'_def parent_ok_def sv_def)
    qed
    have k: "kids h1 nd = kids h nd"
      using rw_inv_old_kids [OF inv1 ndN] by (simp add: s1_def)
    with closed have cs: "\<forall>c \<in> set (kids h1 nd). c < next_id h" by simp
    from rewire_children_ok [OF Suc.IH r invv pokv cs]
    have post: "rw_inv h o2n s2" "rw_grows h sv s2" "set (kids h1 nd) \<subseteq> set (visited s2)"
      "set tr \<subseteq> ran o2n"
      by auto
    have ndv: "nd \<in> set (visited s2)" using post(2) by (auto simp: rw_grows_def sv_def)
    have "rw_grows h s s2"
      unfolding rw_grows_def
    proof (intro conjI ballI allI)
      fix a
      show "set (kids (rw_heap s) a) \<subseteq> set (kids (rw_heap s2) a)"
        using g1 post(2) by (fastforce simp: rw_grows_def sv_def)
    next
      show "set (new_roots s) \<subseteq> set (new_roots s2)"
        using g1 post(2) by (fastforce simp: rw_grows_def sv_def)
    next
      show "set (visited s) \<subseteq> set (visited s2)"
        using post(2) by (auto simp: rw_grows_def sv_def s1_def)
    next
      fix w assume w: "w \<in> set (visited s2) - set (visited s)"
      show "set (kids h w) \<subseteq> set (visited s2)"
      proof (cases "w = nd")
        case True
        with post(3) k show ?thesis by simp
      next
        case False
        with w have "w \<in> set (visited s2) - set (visited sv)" by (simp add: sv_def s1_def)
        with post(2) show ?thesis by (simp add: rw_grows_def)
      qed
    qed
    with post ndv show ?thesis by simp
  qed
  show ?case
  proof (cases "o2n nd")
    case None
    with fin have t: "t = set_union (connections s2 nd) tr"
      and s': "s' = s2\<lparr>connections := (connections s2)(nd := set_union (connections s2 nd) tr)\<rparr>"
      by simp_all
    from mid have "set (connections s2 nd) \<subseteq> ran o2n" by (simp add: rw_inv_def)
    with mid have sub: "set (set_union (connections s2 nd) tr) \<subseteq> ran o2n" by simp
    have "rw_inv h o2n s'" unfolding s' using mid None sub by (intro rw_inv_connections) simp_all
    moreover have "rw_grows h s s'" using mid by (simp add: s' rw_grows_def)
    moreover have "nd \<in> set (visited s')" using mid by (simp add: s')
    ultimately show ?thesis using sub t by simp
  next
    case (Some m)
    with fs have "t = [m]" "s' = s2" by simp_all
    moreover from Some have "m \<in> ran o2n" by (auto simp: ran_def)
    ultimately show ?thesis using mid by simp
  qed
qed

subsection \<open>The graph and the table after squash\<close>

lemma next_id_alloc [simp]: "next_id (alloc_node h nd) = Suc (next_id h)"
  by (simp add: alloc_node_def)

lemma node_at_alloc: "node_at (alloc_node h nd) a = (if a = next_id h then Some nd else node_at h a)"
  by (simp add: alloc_node_def)

lemma next_id_copy_nodes [simp]: "next_id (copy_nodes h ns) = next_id h + length ns"
  by (induction ns arbitrary: h) simp_all

lemma copy_nodes_old: "a < next_id h \<Longrightarrow> node_at (copy_nodes h ns) a = node_at h a"
  by (induction ns arbitrary: h) (simp_all add: node_at_alloc)

lemma copy_nodes_beyond:
  "next_id h + length ns \<le> a \<Longrightarrow> node_at (copy_nodes h ns) a = node_at h a"
  by (induction ns arbitrary: h) (simp_all add: node_at_alloc)

lemma copy_nodes_new:
  "next_id h \<le> a \<Longrightarrow> a < next_id h + length ns \<Longrightarrow>
     \<exists>nd. node_at (copy_nodes h ns) a = Some nd \<and> children nd = []"
proof (induction ns arbitrary: h)
  case Nil
  then show ?case by simp
next
  case (Cons n ns)
  show ?case
  proof (cases "a = next_id h")
    case True
    then show ?thesis by (simp add: copy_nodes_old node_at_alloc)
  next
    case False
    define h' where "h' = alloc_node h \<lparr>frame = frame_of h n, nid = nid_of h n, children = [], parents = []\<rparr>"
    have n': "next_id h' = Suc (next_id h)" by (simp add: h'_def)
    from False Cons.prems have "next_id h' \<le> a" "a < next_id h' + length ns" by (simp_all add: n')
    from Cons.IH [OF this] show ?thesis by (simp add: h'_def)
  qed
qed

lemma old_to_new_dom: "dom (old_to_new h ns) = set ns"
  by (simp add: old_to_new_def dom_map_of_zip)

lemma old_to_new_ran:
  "distinct ns \<Longrightarrow> ran (old_to_new h ns) = {next_id h ..< next_id h + length ns}"
  by (simp add: old_to_new_def ran_map_of_zip)

lemma rw_inv_start:
  assumes closed: "closed_heap h (graph self)"
  shows "rw_inv h (old_to_new h (remdups (df_nodes (dataframe self)))) (squash_start h self)"
proof -
  define ns where "ns = remdups (df_nodes (dataframe self))"
  define o2n where "o2n = old_to_new h ns"
  have ran: "ran o2n = {next_id h ..< next_id h + length ns}"
    unfolding o2n_def by (rule old_to_new_ran) (simp add: ns_def)
  have hp: "rw_heap (squash_start h self) = copy_nodes h ns"
    by (simp add: squash_start_def ns_def)
  have 1: "\<forall>a < next_id h. node_at (copy_nodes h ns) a = node_at h a"
    by (simp add: copy_nodes_old)
  have 2: "\<forall>m \<in> ran o2n. next_id h \<le> m \<and> node_at (copy_nodes h ns) m \<noteq> None"
    using copy_nodes_new [of h _ ns] by (fastforce simp: ran)
  have 3: "\<forall>a. next_id h \<le> a \<longrightarrow> set (kids (copy_nodes h ns) a) \<subseteq> ran o2n"
  proof (intro allI impI)
    fix a assume a: "next_id h \<le> a"
    show "set (kids (copy_nodes h ns) a) \<subseteq> ran o2n"
    proof (cases "a < next_id h + length ns")
      case True
      from copy_nodes_new [OF a True] show ?thesis by (auto simp: kids_def)
    next
      case False
      then have "node_at (copy_nodes h ns) a = node_at h a" by (simp add: copy_nodes_beyond)
      moreover from closed a have "node_at h a = None" by (auto simp: closed_heap_def)
      ultimately show ?thesis by (simp add: kids_def)
    qed
  qed
  have 5: "\<forall>n. set (case o2n n of None \<Rightarrow> [] | Some m \<Rightarrow> [m]) \<subseteq> ran o2n"
    by (auto simp: ran_def split: option.splits)
  show ?thesis
    unfolding rw_inv_def ns_def [symmetric] o2n_def [symmetric] hp
    using 1 2 3 5 by (simp add: squash_start_def ns_def [symmetric] o2n_def [symmetric])
qed

lemma rewired_reach:
  assumes closed: "closed_heap h (graph self)"
    and rows: "set (df_nodes (dataframe self)) \<subseteq> reach h (roots (graph self))"
    and rw: "rewire_children lim (old_to_new h (remdups (df_nodes (dataframe self))))
        (roots (graph self)) None (squash_start h self) = Some (t, s)"
  shows "reach (rw_heap s) (new_roots s) = ran (old_to_new h (remdups (df_nodes (dataframe self))))"
proof -
  define o2n where "o2n = old_to_new h (remdups (df_nodes (dataframe self)))"
  from closed have ck: "\<forall>a. \<forall>b \<in> set (kids h a). b < next_id h"
    and cr: "\<forall>c \<in> set (roots (graph self)). c < next_id h"
    by (simp_all add: closed_heap_def)
  have start: "rw_inv h o2n (squash_start h self)"
    unfolding o2n_def by (rule rw_inv_start [OF closed])
  have pok: "parent_ok o2n None (squash_start h self)" by (simp add: parent_ok_def)
  from rewire_children_ok [OF rewire_ok [OF ck] rw [folded o2n_def] start pok cr]
  have inv: "rw_inv h o2n s" and g: "rw_grows h (squash_start h self) s"
    and rv: "set (roots (graph self)) \<subseteq> set (visited s)"
    by auto
  have vis0: "visited (squash_start h self) = []" by (simp add: squash_start_def)
  have "reach h (roots (graph self)) \<subseteq> set (visited s)"
    using rv g by (intro reach_closed) (auto simp: rw_grows_def vis0)
  with rows have all: "set (df_nodes (dataframe self)) \<subseteq> set (visited s)" by blast
  have "ran o2n \<subseteq> reach (rw_heap s) (new_roots s)"
  proof
    fix m assume "m \<in> ran o2n"
    then obtain n where n: "o2n n = Some m" by (auto simp: ran_def)
    then have "n \<in> dom o2n" by auto
    then have "n \<in> set (df_nodes (dataframe self))" by (simp add: o2n_def old_to_new_dom)
    with all have "n \<in> set (visited s)" by blast
    with inv n show "m \<in> reach (rw_heap s) (new_roots s)" by (auto simp: rw_inv_def)
  qed
  moreover have "reach (rw_heap s) (new_roots s) \<subseteq> ran o2n"
    using inv by (intro reach_closed) (auto simp: rw_inv_def)
  ultimately show ?thesis by (simp add: o2n_def)
qed

lemma kids_set_nid [simp]: "kids (set_nid h n i) a = kids h a"
  by (auto simp: set_nid_def kids_def split: option.splits)

lemma kids_fold_set_nid: "kids (fold (\<lambda>(i, n) h'. set_nid h' n i) xs h) a = kids h a"
  by (induction xs arbitrary: h) (auto split: prod.splits)

lemma enumerate_traverse_kids:
  "enumerate_traverse lim h g = Inr h' \<Longrightarrow> kids h' a = kids h a"
  by (auto simp: enumerate_traverse_def kids_fold_set_nid split: sum.splits)

lemma kids_next_id_update [simp]: "kids (h\<lparr>next_id := k\<rparr>) a = kids h a"
  by (simp add: kids_def)

lemma image_old_to_new:
  "(\<lambda>n. case old_to_new h ns n of None \<Rightarrow> n | Some m \<Rightarrow> m) ` set ns = ran (old_to_new h ns)"
proof -
  have d: "dom (old_to_new h ns) = set ns" by (rule old_to_new_dom)
  show ?thesis
  proof (intro set_eqI iffI)
    fix m assume "m \<in> (\<lambda>n. case old_to_new h ns n of None \<Rightarrow> n | Some m \<Rightarrow> m) ` set ns"
    then obtain n where n: "n \<in> set ns" and m: "m = (case old_to_new h ns n of None \<Rightarrow> n | Some m \<Rightarrow> m)"
      by blast
    from n d obtain k where "old_to_new h ns n = Some k" by blast
    with m show "m \<in> ran (old_to_new h ns)" by (auto simp: ran_def)
  next
    fix m assume "m \<in> ran (old_to_new h ns)"
    then obtain n where n: "old_to_new h ns n = Some m" by (auto simp: ran_def)
    then have "n \<in> set ns" using d by blast
    with n show "m \<in> (\<lambda>n. case old_to_new h ns n of None \<Rightarrow> n | Some m \<Rightarrow> m) ` set ns"
      by force
  qed
qed

lemma set_df_nodes_rekey: "set (df_nodes (rekey f df)) = f ` set (df_nodes df)"
  by (auto simp: rekey_def df_nodes_def row_node_def)

lemma set_df_nodes_groupby: "set (df_nodes (groupby_agg ms df)) = set (df_nodes df)"
  by (simp add: df_nodes_keys)

subsection \<open>The traversal visits the reachable nodes\<close>

lemma nodes_traverse_Cons_elim:
  assumes "nodes_traverse d h ord (c # cs) st = Some st'"
  obtains st1 where "node_traverse d h ord c st = Some st1"
    "nodes_traverse d h ord cs st1 = Some st'"
  using assms by (cases "node_traverse d h ord c st") simp_all

lemma trav_ok_trans:
  assumes a: "trav_ok h S st st1" and b: "trav_ok h S st1 st2"
  shows "trav_ok h S st st2"
proof -
  from a have a1: "set (snd st) = set (fst st) \<longrightarrow> set (snd st1) = set (fst st1)"
    and a2: "set (fst st) \<subseteq> set (fst st1)"
    and a3: "\<forall>v \<in> set (fst st1) - set (fst st). set (kids h v) \<subseteq> set (fst st1)"
    and a4: "set (fst st1) \<subseteq> set (fst st) \<union> S"
    by (simp_all add: trav_ok_def)
  from b have b1: "set (snd st1) = set (fst st1) \<longrightarrow> set (snd st2) = set (fst st2)"
    and b2: "set (fst st1) \<subseteq> set (fst st2)"
    and b3: "\<forall>v \<in> set (fst st2) - set (fst st1). set (kids h v) \<subseteq> set (fst st2)"
    and b4: "set (fst st2) \<subseteq> set (fst st1) \<union> S"
    by (simp_all add: trav_ok_def)
  have 1: "set (snd st) = set (fst st) \<longrightarrow> set (snd st2) = set (fst st2)"
    using a1 b1 by simp
  have 2: "set (fst st) \<subseteq> set (fst st2)" using a2 b2 by blast
  have 3: "\<forall>v \<in> set (fst st2) - set (fst st). set (kids h v) \<subseteq> set (fst st2)"
    using a3 b3 b2 by blast
  have 4: "set (fst st2) \<subseteq> set (fst st) \<union> S" using a4 b4 by blast
  from 1 2 3 4 show ?thesis by (simp add: trav_ok_def)
qed

lemma nodes_traverse_ok:
  assumes single: "\<And>n st st'. node_traverse d h Pre n st = Some st' \<Longrightarrow> n \<in> S
      \<Longrightarrow> trav_ok h S st st' \<and> n \<in> set (fst st')"
  shows "nodes_traverse d h Pre cs st = Some st' \<Longrightarrow> set cs \<subseteq> S
      \<Longrightarrow> trav_ok h S st st' \<and> set cs \<subseteq> set (fst st')"
proof (induction cs arbitrary: st st')
  case Nil
  then show ?case by (simp add: trav_ok_def)
next
  case (Cons c cs)
  from Cons.prems(1) obtain st1 where a: "node_traverse d h Pre c st = Some st1"
    and b: "nodes_traverse d h Pre cs st1 = Some st'"
    by (rule nodes_traverse_Cons_elim)
  from single [OF a] Cons.prems(2) have 1: "trav_ok h S st st1" "c \<in> set (fst st1)" by auto
  from Cons.IH [OF b] Cons.prems(2) have 2: "trav_ok h S st1 st'" "set cs \<subseteq> set (fst st')" by auto
  from 2(1) 1(2) have "c \<in> set (fst st')" by (auto simp: trav_ok_def)
  with trav_ok_trans [OF 1(1) 2(1)] 2(2) show ?case by simp
qed

lemma node_traverse_ok:
  assumes closed: "\<forall>a \<in> S. set (kids h a) \<subseteq> S"
  shows "node_traverse d h Pre n st = Some st' \<Longrightarrow> n \<in> S
      \<Longrightarrow> trav_ok h S st st' \<and> n \<in> set (fst st')"
proof (induction d arbitrary: n st st')
  case 0
  then show ?case by simp
next
  case (Suc d)
  obtain vis out where st: "st = (vis, out)" by (cases st)
  show ?case
  proof (cases "n \<in> set vis")
    case True
    with Suc.prems st show ?thesis by (auto simp: trav_ok_def)
  next
    case False
    with Suc.prems(1) st have r: "nodes_traverse d h Pre (kids h n) (n # vis, out @ [n]) = Some st'"
      by (cases "nodes_traverse d h Pre (kids h n) (n # vis, out @ [n])") auto
    from closed Suc.prems(2) have k: "set (kids h n) \<subseteq> S" by blast
    from nodes_traverse_ok [OF Suc.IH r k]
    have t: "trav_ok h S (n # vis, out @ [n]) st'" and ks: "set (kids h n) \<subseteq> set (fst st')"
      by auto
    from t have t1: "set (out @ [n]) = set (n # vis) \<longrightarrow> set (snd st') = set (fst st')"
      and t2: "set (n # vis) \<subseteq> set (fst st')"
      and t3: "\<forall>v \<in> set (fst st') - set (n # vis). set (kids h v) \<subseteq> set (fst st')"
      and t4: "set (fst st') \<subseteq> set (n # vis) \<union> S"
      by (simp_all add: trav_ok_def)
    have 1: "set out = set vis \<longrightarrow> set (snd st') = set (fst st')" using t1 by auto
    have 2: "set vis \<subseteq> set (fst st')" using t2 by auto
    have 3: "\<forall>v \<in> set (fst st') - set vis. set (kids h v) \<subseteq> set (fst st')"
      using t3 ks by auto
    have 4: "set (fst st') \<subseteq> set vis \<union> S" using t4 Suc.prems(2) by auto
    from 1 2 3 4 have "trav_ok h S (vis, out) st'" by (simp add: trav_ok_def)
    moreover from t have "n \<in> set (fst st')" by (auto simp: trav_ok_def)
    ultimately show ?thesis using st by simp
  qed
qed

lemma traverse_reach:
  assumes "traverse lim h Pre g = Inr ns"
  shows "set ns = reach h (roots g)"
proof -
  from assms obtain vis where r: "nodes_traverse lim h Pre (roots g) ([], []) = Some (vis, ns)"
    by (auto simp: traverse_def split: option.splits)
  have closed: "\<forall>a \<in> reach h (roots g). set (kids h a) \<subseteq> reach h (roots g)"
    by (auto intro: reach_step)
  have rs: "set (roots g) \<subseteq> reach h (roots g)" by (auto intro: reach_root)
  from nodes_traverse_ok [OF node_traverse_ok [OF closed] r rs]
  have t: "trav_ok h (reach h (roots g)) ([], []) (vis, ns)" and c: "set (roots g) \<subseteq> set vis"
    by auto
  from t have e: "set ns = set vis" and k: "\<forall>v \<in> set vis. set (kids h v) \<subseteq> set vis"
    and s: "set vis \<subseteq> reach h (roots g)"
    by (simp_all add: trav_ok_def)
  from reach_closed [OF c k] s e show ?thesis by auto
qed

subsection \<open>The normalisation modelled from the spec keeps its contract\<close>

lemma set_dedup [simp]: "set (dedup xs) = set xs"
  by (simp add: dedup_def)

lemma same_frame_rep_in: "same_frame_rep h sibs n = n \<or> same_frame_rep h sibs n \<in> set sibs"
proof (cases "filter (\<lambda>m. frame_of h m = frame_of h n) sibs")
  case Nil
  then show ?thesis by (simp add: same_frame_rep_def)
next
  case (Cons r rs)
  then have "r \<in> set (filter (\<lambda>m. frame_of h m = frame_of h n) sibs)" by simp
  then have "r \<in> set sibs" by simp
  with Cons show ?thesis by (simp add: same_frame_rep_def)
qed

lemma find_merges_fold_in:
  "merges_in R m \<Longrightarrow> set xs \<subseteq> R \<Longrightarrow> set sibs \<subseteq> R \<Longrightarrow>
   merges_in R (fold (\<lambda>n m'. let r = same_frame_rep h sibs n in if r = n then m' else m'(n \<mapsto> r)) xs m)"
proof (induction xs arbitrary: m)
  case Nil
  then show ?case by simp
next
  case (Cons x xs)
  have "merges_in R (let r = same_frame_rep h sibs x in if r = x then m else m(x \<mapsto> r))"
    using Cons.prems same_frame_rep_in [of h sibs x]
    by (auto simp: merges_in_def Let_def)
  from Cons.IH [OF this] Cons.prems show ?case by simp
qed

lemma find_merges_in:
  "merges_in R m \<Longrightarrow> set sibs \<subseteq> R \<Longrightarrow> merges_in R (find_merges h sibs m)"
  unfolding find_merges_def by (rule find_merges_fold_in) simp_all

lemma fold_find_merges_in:
  "merges_in R m \<Longrightarrow> \<forall>n \<in> set ns. set (kids h n) \<subseteq> R \<Longrightarrow>
   merges_in R (fold (\<lambda>n m'. find_merges h (kids h n) m') ns m)"
proof (induction ns arbitrary: m)
  case Nil
  then show ?case by simp
next
  case (Cons n ns)
  from Cons.prems have "merges_in R (find_merges h (kids h n) m)"
    by (intro find_merges_in) simp_all
  from Cons.IH [OF this] Cons.prems show ?case by simp
qed

lemma node_at_set_edges:
  "(node_at (set_edges h n cs ps) a = None) = (node_at h a = None)"
  by (auto simp: set_edges_def split: option.splits)

lemma kids_set_edges:
  "kids (set_edges h n cs ps) a = (if a = n \<and> node_at h n \<noteq> None then cs else kids h a)"
  by (auto simp: set_edges_def kids_def split: option.splits)

lemma node_at_fold_set_edges:
  "(node_at (fold (\<lambda>n h''. set_edges h'' n (C n) (P n)) ns h) a = None) = (node_at h a = None)"
  by (induction ns arbitrary: h) (simp_all add: node_at_set_edges)

lemma kids_fold_set_edges:
  "kids (fold (\<lambda>n h''. set_edges h'' n (C n) (P n)) ns h) a
     = (if a \<in> set ns \<and> node_at h a \<noteq> None then C a else kids h a)"
proof (induction ns rule: rev_induct)
  case Nil
  then show ?case by simp
next
  case (snoc n ns)
  show ?case
    using snoc.IH node_at_fold_set_edges [of C P ns h n]
    by (cases "node_at h n = None"; cases "a = n"; cases "a \<in> set ns")
       (simp_all add: kids_set_edges)
qed

lemma normalize_reach:
  assumes run: "normalize l h g = (Inr m, h', g')"
    and ex: "\<forall>n \<in> reach h (roots g). node_at h n \<noteq> None"
  shows "reach h' (roots g') = (\<lambda>n. case m n of None \<Rightarrow> n | Some k \<Rightarrow> k) ` reach h (roots g)"
proof -
  define R where "R = reach h (roots g)"
  define mf where "mf = (\<lambda>n. case m n of None \<Rightarrow> n | Some k \<Rightarrow> k)"
  from run obtain ns where tr: "traverse l h Pre g = Inr ns"
    by (cases "traverse l h Pre g") (simp_all add: normalize_def)
  have ns: "set ns = R" unfolding R_def by (rule traverse_reach [OF tr])
  define C where "C = (\<lambda>n. apply_merges m (concat (map (kids h) (n # filter (\<lambda>k. m k = Some n) ns))))"
  define P where "P = (\<lambda>n. apply_merges m (pars h n))"
  from run tr have m: "m = fold (\<lambda>n m'. find_merges h (kids h n) m') ns (find_merges h (roots g) Map.empty)"
    by (simp add: normalize_def Let_def)
  from run tr have h': "h' = fold (\<lambda>n h''. set_edges h'' n (C n) (P n)) ns h"
    unfolding C_def P_def m by (simp add: normalize_def Let_def)
  from run tr have g': "roots g' = apply_merges m (roots g)"
    unfolding m by (auto simp: normalize_def Let_def)
  have rR: "set (roots g) \<subseteq> R" unfolding R_def by (auto intro: reach_root)
  have kR: "\<forall>n \<in> R. set (kids h n) \<subseteq> R" unfolding R_def by (auto intro: reach_step)
  have "merges_in R (find_merges h (roots g) Map.empty)"
    by (rule find_merges_in [OF _ rR]) (simp add: merges_in_def)
  then have min: "merges_in R m"
    unfolding m using kR ns by (intro fold_find_merges_in) auto
  have mfR: "mf n \<in> R" if "n \<in> R" for n
    using that min by (auto simp: mf_def merges_in_def split: option.splits)
  have kids': "kids h' a = C a" if "a \<in> R" for a
    using that ex ns by (simp add: h' kids_fold_set_edges R_def)
  have setC: "set (C a) = mf ` (set (kids h a) \<union> (\<Union>k \<in> {k \<in> R. m k = Some a}. set (kids h k)))" for a
    unfolding C_def apply_merges_def mf_def using ns by auto
  have roots': "set (roots g') = mf ` set (roots g)"
    by (simp add: g' apply_merges_def mf_def)
  have sub: "reach h' (roots g') \<subseteq> mf ` R"
  proof (rule reach_closed)
    show "set (roots g') \<subseteq> mf ` R" using roots' rR by auto
    show "\<forall>a \<in> mf ` R. set (kids h' a) \<subseteq> mf ` R"
    proof (intro ballI subsetI)
      fix a y assume a: "a \<in> mf ` R" and y: "y \<in> set (kids h' a)"
      from a mfR have aR: "a \<in> R" by auto
      from y kids' [OF aR] setC [of a] obtain b where
        b: "y = mf b" and bk: "b \<in> set (kids h a) \<or> (\<exists>k \<in> R. b \<in> set (kids h k))"
        by auto
      from bk aR kR have "b \<in> R" by auto
      with b show "y \<in> mf ` R" by simp
    qed
  qed
  have sup: "mf v \<in> reach h' (roots g')" if "v \<in> R" for v
  proof -
    from that obtain r where r: "r \<in> set (roots g)" and p: "(r, v) \<in> (edges h)\<^sup>*"
      by (auto simp: R_def reach_def)
    from p show ?thesis
    proof (induction rule: rtrancl_induct)
      case base
      from r roots' have "mf r \<in> set (roots g')" by simp
      then show ?case by (rule reach_root)
    next
      case (step a b)
      from r step.hyps(1) have aR: "a \<in> R" by (auto simp: R_def reach_def)
      from step.hyps(2) have ab: "b \<in> set (kids h a)" by (simp add: edges_def)
      have "mf b \<in> set (C (mf a))"
      proof (cases "m a")
        case None
        then have "mf a = a" by (simp add: mf_def)
        with ab show ?thesis by (simp add: setC)
      next
        case (Some r')
        then have "mf a = r'" by (simp add: mf_def)
        with ab Some aR show ?thesis by (auto simp: setC)
      qed
      with kids' [OF mfR [OF aR]] have "mf b \<in> set (kids h' (mf a))" by simp
      with step.IH show ?case by (rule reach_step)
    qed
  qed
  from sub sup show ?thesis unfolding R_def mf_def by blast
qed

lemma merges_reach_normalize: "merges_reach normalize"
  unfolding merges_reach_def using normalize_reach by blast

lemma rewired_exist:
  assumes closed: "closed_heap h (graph self)"
    and rw: "rewire_children lim (old_to_new h (remdups (df_nodes (dataframe self))))
        (roots (graph self)) None (squash_start h self) = Some (t, s)"
  shows "\<forall>m \<in> ran (old_to_new h (remdups (df_nodes (dataframe self)))). node_at (rw_heap s) m \<noteq> None"
proof -
  define o2n where "o2n = old_to_new h (remdups (df_nodes (dataframe self)))"
  from closed have ck: "\<forall>a. \<forall>b \<in> set (kids h a). b < next_id h"
    and cr: "\<forall>c \<in> set (roots (graph self)). c < next_id h"
    by (simp_all add: closed_heap_def)
  have start: "rw_inv h o2n (squash_start h self)"
    unfolding o2n_def by (rule rw_inv_start [OF closed])
  have pok: "parent_ok o2n None (squash_start h self)" by (simp add: parent_ok_def)
  from rewire_children_ok [OF rewire_ok [OF ck] rw [folded o2n_def] start pok cr]
  have "rw_inv h o2n s" by auto
  then show ?thesis by (simp add: rw_inv_def o2n_def)
qed

lemma node_at_set_nid: "(node_at (set_nid h n i) a = None) = (node_at h a = None)"
  by (auto simp: set_nid_def split: option.splits)

lemma node_at_fold_set_nid:
  "(node_at (fold (\<lambda>(i, n) h'. set_nid h' n i) xs h) a = None) = (node_at h a = None)"
  by (induction xs arbitrary: h) (auto simp: node_at_set_nid split: prod.splits)

lemma enumerate_traverse_exist:
  "enumerate_traverse lim h g = Inr h' \<Longrightarrow> (node_at h' a = None) = (node_at h a = None)"
  by (auto simp: enumerate_traverse_def node_at_fold_set_nid split: sum.splits)

text \<open>
  C2. Let the heap be closed, let every node of the table be reachable from the roots
  of the graph (what a row filter leaves of a consistent frame), and let
  \<^verbatim>\<open>normalize\<close> keep its contract, as the normalisation modelled from the spec
  does. Whenever \<^verbatim>\<open>squash\<close> returns, the nodes reachable from the roots of the new
  graph are exactly the nodes of the new table.
\<close>

theorem squash_graph_matches_table:
  assumes run: "squash nz lim h self = (Inr gf', h')"
    and closed: "closed_heap h (graph self)"
    and rows: "set (df_nodes (dataframe self)) \<subseteq> reach h (roots (graph self))"
    and nz: "merges_reach nz"
  shows "reach h' (roots (graph gf')) = set (df_nodes (dataframe gf'))"
proof -
  define ns where "ns = remdups (df_nodes (dataframe self))"
  define o2n where "o2n = old_to_new h ns"
  from run obtain t s h4 merges g' new_gf where
    rw: "rewire_children lim (old_to_new h (remdups (df_nodes (dataframe self))))
        (roots (graph self)) None (squash_start h self) = Some (t, s)"
    and en: "enumerate_traverse lim ((rw_heap s)\<lparr>next_id := Suc (next_id (rw_heap s))\<rparr>)
        \<lparr>gid = next_id (rw_heap s), roots = new_roots s\<rparr> = Inr h4"
    and nzr: "nz lim h4 \<lparr>gid = next_id (rw_heap s), roots = new_roots s\<rparr> = (Inr merges, h', g')"
    and ini: "init_graphframe g'
        (groupby_agg (exc_metrics self @ inc_metrics self)
           (rekey (\<lambda>n. case merges n of None \<Rightarrow> n | Some m \<Rightarrow> m)
              (rekey (\<lambda>n. case old_to_new h (remdups (df_nodes (dataframe self))) n of
                             None \<Rightarrow> n | Some m \<Rightarrow> m) (dataframe self))))
        (exc_metrics self) (inc_metrics self) = Inr new_gf"
    and upd: "update_inclusive_columns lim h' new_gf = (None, gf')"
    by (rule squash_Inr_elim)
  define mf where "mf = (\<lambda>n. case merges n of None \<Rightarrow> n | Some m \<Rightarrow> m)"
  have r1: "reach (rw_heap s) (new_roots s) = ran o2n"
    unfolding o2n_def ns_def by (rule rewired_reach [OF closed rows rw])
  have "reach h4 (new_roots s) = reach (rw_heap s) (new_roots s)"
    by (rule reach_cong) (simp add: enumerate_traverse_kids [OF en])
  with r1 have r4: "reach h4 (new_roots s) = ran o2n" by simp
  have "\<forall>m \<in> ran o2n. node_at (rw_heap s) m \<noteq> None"
    unfolding o2n_def ns_def by (rule rewired_exist [OF closed rw])
  then have ex: "\<forall>n \<in> reach h4 (roots \<lparr>gid = next_id (rw_heap s), roots = new_roots s\<rparr>).
      node_at h4 n \<noteq> None"
    using r4 by (simp add: enumerate_traverse_exist [OF en])
  from nz nzr ex
  have "reach h' (roots g') = mf ` reach h4 (roots \<lparr>gid = next_id (rw_heap s), roots = new_roots s\<rparr>)"
    unfolding merges_reach_def mf_def by blast
  with r4 have left: "reach h' (roots g') = mf ` ran o2n" by simp
  from update_inclusive_columns_keys [OF upd] init_graphframe_Inr [OF ini]
  have g: "graph gf' = g'"
    and k: "df_keys (dataframe gf') = df_keys (groupby_agg (exc_metrics self @ inc_metrics self)
           (rekey (\<lambda>n. case merges n of None \<Rightarrow> n | Some m \<Rightarrow> m)
              (rekey (\<lambda>n. case old_to_new h (remdups (df_nodes (dataframe self))) n of
                             None \<Rightarrow> n | Some m \<Rightarrow> m) (dataframe self))))"
    by simp_all
  have "set (df_nodes (dataframe gf')) = mf ` (\<lambda>n. case o2n n of None \<Rightarrow> n | Some m \<Rightarrow> m) ` set (df_nodes (dataframe self))"
    unfolding df_nodes_keys [of "dataframe gf'"] k
    unfolding df_nodes_keys [symmetric] set_df_nodes_groupby set_df_nodes_rekey
    by (simp add: mf_def o2n_def ns_def)
  also have "(\<lambda>n. case o2n n of None \<Rightarrow> n | Some m \<Rightarrow> m) ` set (df_nodes (dataframe self)) = ran o2n"
    using image_old_to_new [of h ns] by (simp add: o2n_def ns_def)
  finally show ?thesis using left g by simp
qed

theorem squash_graph_matches_table_witness:
  "closed_heap twin_heap (graph twin_gf)
   \<and> set (df_nodes (dataframe twin_gf)) \<subseteq> reach twin_heap (roots (graph twin_gf))
   \<and> merges_reach normalize
   \<and> (\<exists>gf' h'. squash normalize 1000 twin_heap twin_gf = (Inr gf', h')
         \<and> roots (graph gf') = [6] \<and> kids h' 6 = [7]
         \<and> df_nodes (dataframe gf') = [6, 7]
         \<and> df_cell (dataframe gf') (7, []) ''time'' = Num 110
         \<and> reach h' (roots (graph gf')) = {6, 7})"
proof -
  have closed: "closed_heap twin_heap (graph twin_gf)"
    by (auto simp: closed_heap_def twin_heap_def twin_gf_def kids_def
        split: if_splits option.splits)
  have k: "kids twin_heap 0 = [1, 2]" "kids twin_heap (Suc 0) = [3]" "kids twin_heap 2 = [4]"
    by (simp_all add: twin_heap_def kids_def)
  have r0: "0 \<in> reach twin_heap [0]" by (rule reach_root) simp
  have r1: "1 \<in> reach twin_heap [0]" by (rule reach_step [OF r0]) (simp add: k)
  have r2: "2 \<in> reach twin_heap [0]" by (rule reach_step [OF r0]) (simp add: k)
  have r3: "3 \<in> reach twin_heap [0]" by (rule reach_step [OF r1]) (simp add: k)
  have r4: "4 \<in> reach twin_heap [0]" by (rule reach_step [OF r2]) (simp add: k)
  have rows: "set (df_nodes (dataframe twin_gf)) \<subseteq> reach twin_heap (roots (graph twin_gf))"
    using r0 r3 r4 by (simp add: twin_gf_def df_nodes_def row_node_def)
  have "case squash normalize 1000 twin_heap twin_gf of
          (Inr gf', h') \<Rightarrow> roots (graph gf') = [6] \<and> kids h' 6 = [7]
             \<and> df_nodes (dataframe gf') = [6, 7]
             \<and> df_cell (dataframe gf') (7, []) ''time'' = Num 110
        | (Inl e, h') \<Rightarrow> False"
    by code_simp
  then obtain gf' h' where run: "squash normalize 1000 twin_heap twin_gf = (Inr gf', h')"
    and facts: "roots (graph gf') = [6]" "kids h' 6 = [7]" "df_nodes (dataframe gf') = [6, 7]"
      "df_cell (dataframe gf') (7, []) ''time'' = Num 110"
    by (cases "squash normalize 1000 twin_heap twin_gf";
        cases "fst (squash normalize 1000 twin_heap twin_gf)") auto
  note mr = merges_reach_normalize
  from squash_graph_matches_table [OF run closed rows mr] facts(3)
  have "reach h' (roots (graph gf')) = {6, 7}" by simp
  with closed rows mr run facts show ?thesis by blast
qed

end
